theory Spec2Isabelle
  imports Complex_Main
begin

section \<open>Stack (Zigangirov-Jelinek) decoder of CC_StackDecoding_FA.h\<close>

text \<open>
  The embedding follows \<^verbatim>\<open>CC_StackDecoding_FA<T_Register, T_IOSymbol, N_k>\<close>.
  Conventions:
  \<^item> input and output symbols (\<^verbatim>\<open>T_IOSymbol\<close>) are natural numbers; the template type is
    taken to be wide enough for \<^verbatim>\<open>1 << k\<close>, as the scan \<^verbatim>\<open>in_symbol < end_symbol\<close> needs;
  \<^item> metrics (\<^verbatim>\<open>float\<close>) are real numbers: rounding, infinities and NaN are not modelled;
  \<^item> depths are integers (the root has depth \<open>-1\<close>); lengths and counters are naturals, and
    \<^verbatim>\<open>get_message_length() - 1\<close>, \<^verbatim>\<open>get_message_length() - get_m()\<close> are computed in
    the integers, which is what the code computes when the message length is at least 1
    and at least \<^verbatim>\<open>get_m()\<close>;
  \<^item> a \<^verbatim>\<open>StackNodeEdge*\<close> is an address into the list of allocated node+edges; \<^verbatim>\<open>new\<close>
    appends to that list;
  \<^item> the classes this header only includes (encoder, reliability matrix, tree node+edge,
    the two parent classes) appear through the members the header uses.
\<close>

subsection \<open>Collaborators used through their interface\<close>

type_synonym symbol = nat
type_synonym addr = nat

text \<open>\<^verbatim>\<open>Parent::encoding\<close>: the code parameters, the register contents after a reset, and
  \<^verbatim>\<open>encode(in_symbol, out_symbol, no_step)\<close> as a function of the registers, returning the
  output symbol and the new registers.\<close>

record 'r encoding =
  get_k :: nat
  get_m :: nat
  get_n :: nat
  clear_registers :: 'r
  encode :: "'r \<Rightarrow> symbol \<Rightarrow> bool \<Rightarrow> symbol \<times> 'r"

text \<open>\<^verbatim>\<open>CC_ReliabilityMatrix\<close>: \<open>relmat_at\<close> is \<^verbatim>\<open>operator()(out_symbol, position)\<close>.\<close>

record reliability_matrix =
  get_message_length :: nat
  get_nb_symbols_log2 :: nat
  relmat_at :: "symbol \<Rightarrow> nat \<Rightarrow> real"

text \<open>The options held by \<^verbatim>\<open>CC_SequentialDecoding_FA\<close>; a decode run reads them only.\<close>

record options =
  use_node_limit :: bool
  node_limit :: nat
  use_metric_limit :: bool
  metric_limit :: real
  tail_zeros :: bool
  edge_bias :: real

text \<open>\<^verbatim>\<open>CC_TreeNodeEdge_FA\<close>, with the fields the constructor call and the accessors of the
  header name. The outgoing node+edges are the fixed array of \<^verbatim>\<open>1 << N_k\<close> pointers.\<close>

record 'r node_edge =
  get_id :: nat
  get_incoming_node_edge :: "addr option"
  get_in_symbol :: symbol
  get_edge_metric :: real
  get_path_metric :: real
  get_depth :: int
  get_registers :: 'r
  get_outgoing_node_edges :: "addr option list"

text \<open>\<^verbatim>\<open>NodeEdgeOrdering(path_metric, node_id)\<close>, the key of the stack map.\<close>

record node_edge_ordering =
  path_metric :: real
  node_id :: nat

text \<open>Modelled from the spec: \<^verbatim>\<open>operator>\<close> of \<^verbatim>\<open>NodeEdgeOrdering\<close>, which \<^verbatim>\<open>std::greater\<close>
  calls, is declared outside this header. The specification keys the frontier by
  (cumulative path metric, creation id): the greater metric comes first, and among equal
  metrics the earlier-created node (smaller id) comes first.\<close>

definition ordering_greater :: "node_edge_ordering \<Rightarrow> node_edge_ordering \<Rightarrow> bool" where
  "ordering_greater a b =
     (if path_metric a = path_metric b then node_id a < node_id b
      else path_metric a > path_metric b)"

text \<open>Modelled from the spec: \<^verbatim>\<open>ParentInternal::log2\<close> is the base-2 logarithm.\<close>

definition log2 :: "real \<Rightarrow> real" where
  "log2 x = log 2 x"

subsection \<open>Decoder state\<close>

text \<open>The members a decode run writes: the counters and score of \<^verbatim>\<open>Parent\<close>, the registers of
  \<^verbatim>\<open>Parent::encoding\<close>, the tree of \<^verbatim>\<open>ParentInternal\<close> (all allocated node+edges and the
  root pointer) and the stack map of this class, as the list of its entries from
  \<^verbatim>\<open>begin()\<close> to \<^verbatim>\<open>end()\<close>.\<close>

record 'r decoder =
  node_count :: nat
  cur_depth :: int
  max_depth :: int
  codeword_score :: real
  encoding_registers :: 'r
  node_edges :: "'r node_edge list"
  root_node :: "addr option"
  node_edge_stack :: "(node_edge_ordering \<times> addr) list"

datatype error = CCSoft_Exception string | Invalid_Dereference

subsection \<open>The stack map: \<^verbatim>\<open>std::map<NodeEdgeOrdering, StackNodeEdge*, std::greater<..>>\<close>\<close>

text \<open>\<^verbatim>\<open>node_edge_stack[key] = value\<close>: the entries are kept in the order of the comparator;
  an entry whose key is equivalent to \<open>key\<close> (neither is greater) has its value replaced.\<close>

fun stack_assign ::
  "node_edge_ordering \<Rightarrow> addr \<Rightarrow> (node_edge_ordering \<times> addr) list
     \<Rightarrow> (node_edge_ordering \<times> addr) list" where
  "stack_assign key v [] = [(key, v)]"
| "stack_assign key v ((key', v') # rest) =
     (if ordering_greater key' key then (key', v') # stack_assign key v rest
      else if ordering_greater key key' then (key, v) # (key', v') # rest
      else (key', v) # rest)"

text \<open>\<^verbatim>\<open>remove_node_from_stack\<close>: scan from \<^verbatim>\<open>begin()\<close>, erase the first entry whose pointer
  is the node+edge, and stop.\<close>

fun remove_node_from_stack ::
  "addr \<Rightarrow> (node_edge_ordering \<times> addr) list \<Rightarrow> (node_edge_ordering \<times> addr) list" where
  "remove_node_from_stack node_edge [] = []"
| "remove_node_from_stack node_edge ((key, v) # rest) =
     (if node_edge = v then rest else (key, v) # remove_node_from_stack node_edge rest)"

text \<open>\<^verbatim>\<open>get_stack_score\<close> reads \<^verbatim>\<open>begin()->first.path_metric\<close>; on an empty stack that is a
  dereference of \<^verbatim>\<open>end()\<close>, here \<open>None\<close>.\<close>

definition get_stack_score :: "'r decoder \<Rightarrow> real option" where
  "get_stack_score st =
     (case node_edge_stack st of [] \<Rightarrow> None | (key, v) # rest \<Rightarrow> Some (path_metric key))"

definition get_stack_size :: "'r decoder \<Rightarrow> nat" where
  "get_stack_size st = length (node_edge_stack st)"

subsection \<open>Reset and root\<close>

text \<open>Modelled from the spec: \<^verbatim>\<open>ParentInternal::reset\<close> and \<^verbatim>\<open>Parent::reset\<close> are defined in
  the parent classes, not in this header. The specification has them reset the counters and
  the score and release the tree; the encoder returns to its initial registers. The header's
  own \<^verbatim>\<open>reset\<close> then clears the stack.\<close>

definition reset :: "'r encoding \<Rightarrow> 'r decoder \<Rightarrow> 'r decoder" where
  "reset enc st =
     st\<lparr>node_count := 0, cur_depth := -1, max_depth := 0, codeword_score := 0,
        encoding_registers := clear_registers enc,
        node_edges := [], root_node := None, node_edge_stack := []\<rparr>"

text \<open>Modelled from the spec: \<^verbatim>\<open>ParentInternal::init_root\<close> is defined in the parent class. The
  specification has the root carry cumulative metric 0 and the depth sentinel \<open>-1\<close>; it has
  no parent, and its creation id is the node count at its creation. Its registers are
  never read.\<close>

definition init_root :: "'r encoding \<Rightarrow> 'r decoder \<Rightarrow> 'r decoder" where
  "init_root enc st =
     st\<lparr>node_edges := node_edges st @
          [\<lparr>get_id = node_count st, get_incoming_node_edge = None, get_in_symbol = 0,
            get_edge_metric = 0, get_path_metric = 0, get_depth = -1,
            get_registers = clear_registers enc,
            get_outgoing_node_edges = replicate (2 ^ get_k enc) None\<rparr>],
        root_node := Some (length (node_edges st))\<rparr>"

subsection \<open>\<^verbatim>\<open>visit_node_forward\<close>\<close>

text \<open>The body of the scan over the candidate input symbols, for one \<open>in_symbol\<close>.\<close>

definition visit_symbol ::
  "'r encoding \<Rightarrow> reliability_matrix \<Rightarrow> options \<Rightarrow> addr \<Rightarrow> int \<Rightarrow> symbol
     \<Rightarrow> 'r decoder \<Rightarrow> 'r decoder" where
  "visit_symbol enc relmat opts node_edge forward_depth in_symbol st =
     (let (out_symbol, regs) = encode enc (encoding_registers st) in_symbol (in_symbol > 0);
          st1 = st\<lparr>encoding_registers := regs\<rparr>;
          edge_metric = log2 (relmat_at relmat out_symbol (nat forward_depth)) - edge_bias opts;
          forward_path_metric = edge_metric + get_path_metric (node_edges st1 ! node_edge)
      in if \<not> use_metric_limit opts \<or> forward_path_metric > metric_limit opts
         then
           (let next_node_edge = length (node_edges st1);
                created = \<lparr>get_id = node_count st1, get_incoming_node_edge = Some node_edge,
                           get_in_symbol = in_symbol, get_edge_metric = edge_metric,
                           get_path_metric = forward_path_metric, get_depth = forward_depth,
                           get_registers = regs,
                           get_outgoing_node_edges = replicate (2 ^ get_k enc) None\<rparr>;
                parent = node_edges st1 ! node_edge;
                linked = parent\<lparr>get_outgoing_node_edges :=
                            (get_outgoing_node_edges parent)[in_symbol := Some next_node_edge]\<rparr>
            in st1\<lparr>node_edges := (node_edges st1 @ [created])[node_edge := linked],
                   node_edge_stack :=
                     stack_assign \<lparr>path_metric = forward_path_metric, node_id = node_count st1\<rparr>
                       next_node_edge (node_edge_stack st1),
                   node_count := node_count st1 + 1\<rparr>)
         else st1)"

definition end_symbol ::
  "'r encoding \<Rightarrow> reliability_matrix \<Rightarrow> options \<Rightarrow> int \<Rightarrow> nat" where
  "end_symbol enc relmat opts forward_depth =
     (if tail_zeros opts \<and> forward_depth > int (get_message_length relmat) - int (get_m enc)
      then 1 else 2 ^ get_k enc)"

definition visit_node_forward ::
  "'r encoding \<Rightarrow> reliability_matrix \<Rightarrow> options \<Rightarrow> addr \<Rightarrow> 'r decoder \<Rightarrow> 'r decoder" where
  "visit_node_forward enc relmat opts node_edge st =
     (let d = get_depth (node_edges st ! node_edge);
          forward_depth = d + 1;
          st1 = (if d \<ge> 0
                 then st\<lparr>encoding_registers := get_registers (node_edges st ! node_edge)\<rparr>
                 else st);
          st2 = fold (visit_symbol enc relmat opts node_edge forward_depth)
                  [0 ..< end_symbol enc relmat opts forward_depth] st1;
          st3 = st2\<lparr>cur_depth := forward_depth\<rparr>;
          st4 = (if cur_depth st3 > max_depth st3 then st3\<lparr>max_depth := cur_depth st3\<rparr> else st3)
      in if d \<ge> 0
         then st4\<lparr>node_edge_stack := remove_node_from_stack node_edge (node_edge_stack st4)\<rparr>
         else st4)"

subsection \<open>Back-tracking\<close>

text \<open>Modelled from the spec: \<^verbatim>\<open>ParentInternal::back_track\<close> is defined in the parent class.
  The specification has it walk the parent references from the given node to the root,
  collecting the incoming symbol of each node on the way (the root has none), and deliver
  the collected symbols in reverse, which is the chronological order.\<close>

partial_function (option) collect_symbols :: "'r node_edge list \<Rightarrow> addr \<Rightarrow> symbol list option" where
  "collect_symbols ns a =
     (case get_incoming_node_edge (ns ! a) of
        None \<Rightarrow> Some []
      | Some p \<Rightarrow> Option.bind (collect_symbols ns p) (\<lambda>syms. Some (get_in_symbol (ns ! a) # syms)))"

definition back_track :: "'r node_edge list \<Rightarrow> addr \<Rightarrow> symbol list option" where
  "back_track ns a = map_option rev (collect_symbols ns a)"

subsection \<open>\<^verbatim>\<open>decode\<close>\<close>

text \<open>The \<^verbatim>\<open>while\<close> loop of \<^verbatim>\<open>decode\<close>. The result is the state at the exit of the loop and
  whether the exit was the \<^verbatim>\<open>return false\<close> of the node limit.\<close>

partial_function (option) decode_loop ::
  "'r encoding \<Rightarrow> reliability_matrix \<Rightarrow> options \<Rightarrow> 'r decoder \<Rightarrow> (bool \<times> 'r decoder) option" where
  "decode_loop enc relmat opts st =
     (case node_edge_stack st of
        [] \<Rightarrow> Some (False, st)
      | (key, node) # rest \<Rightarrow>
          if get_depth (node_edges st ! node) < int (get_message_length relmat) - 1
          then (let st' = visit_node_forward enc relmat opts node st
                in if use_node_limit opts \<and> node_count st' > node_limit opts
                   then Some (True, st')
                   else decode_loop enc relmat opts st')
          else Some (False, st))"

text \<open>The statements of \<^verbatim>\<open>decode\<close> between the two checks and the loop.\<close>

definition decode_start :: "'r encoding \<Rightarrow> 'r decoder \<Rightarrow> 'r decoder" where
  "decode_start enc st =
     (let st1 = reset enc st;
          st2 = init_root enc st1
      in st2\<lparr>node_count := node_count st2 + 1\<rparr>)"

definition visit_root ::
  "'r encoding \<Rightarrow> reliability_matrix \<Rightarrow> options \<Rightarrow> 'r decoder \<Rightarrow> 'r decoder" where
  "visit_root enc relmat opts st =
     visit_node_forward enc relmat opts (the (root_node st)) st"

text \<open>The statements after the loop: the result branch.\<close>

definition decode_result ::
  "options \<Rightarrow> 'r decoder \<Rightarrow> symbol list \<Rightarrow> ((error + bool) \<times> 'r decoder \<times> symbol list) option" where
  "decode_result opts st decoded_message =
     (if \<not> use_metric_limit opts \<or> length (node_edge_stack st) \<noteq> 0
      then (case node_edge_stack st of
              [] \<Rightarrow> Some (Inl Invalid_Dereference, st, decoded_message)
            | (key, node) # rest \<Rightarrow>
                Option.bind (back_track (node_edges st) node)
                  (\<lambda>msg. Some (Inr True, st\<lparr>codeword_score := path_metric key\<rparr>, msg)))
      else Some (Inr False, st, decoded_message))"

text \<open>\<^verbatim>\<open>decode(relmat, decoded_message)\<close>. The result is the exception or the returned boolean,
  the decoder afterwards, and the caller's vector afterwards; \<open>None\<close> stands for a run that
  does not return.\<close>

definition decode ::
  "'r encoding \<Rightarrow> reliability_matrix \<Rightarrow> options \<Rightarrow> 'r decoder \<Rightarrow> symbol list
     \<Rightarrow> ((error + bool) \<times> 'r decoder \<times> symbol list) option" where
  "decode enc relmat opts st decoded_message =
     (if get_message_length relmat < get_m enc
      then Some (Inl (CCSoft_Exception
             ''Reliability Matrix should have a number of columns at least equal to the code constraint''),
             st, decoded_message)
      else if get_nb_symbols_log2 relmat \<noteq> get_n enc
      then Some (Inl (CCSoft_Exception
             ''Reliability Matrix is not compatible with code output symbol size''),
             st, decoded_message)
      else
        (case decode_loop enc relmat opts
                (visit_root enc relmat opts (decode_start enc st)) of
           None \<Rightarrow> None
         | Some (True, st') \<Rightarrow> Some (Inr False, st', decoded_message)
         | Some (False, st') \<Rightarrow> decode_result opts st' decoded_message))"

subsection \<open>Notions used in the statements and proofs\<close>

text \<open>No entry of the stack carries the creation id of \<open>key\<close>.\<close>

definition fresh_key :: "node_edge_ordering \<Rightarrow> (node_edge_ordering \<times> addr) list \<Rightarrow> bool" where
  "fresh_key key xs = (\<forall>e \<in> set xs. node_id (fst e) \<noteq> node_id key)"

text \<open>The local variables of the scan body of \<^verbatim>\<open>visit_node_forward\<close>, as functions of the
  state in which the body starts: the encoder's output symbol and registers, the edge
  metric, the forward path metric, the test of the metric limit and the created node+edge.\<close>

definition out_symbol_of :: "'r encoding \<Rightarrow> symbol \<Rightarrow> 'r decoder \<Rightarrow> symbol" where
  "out_symbol_of enc in_symbol st = fst (encode enc (encoding_registers st) in_symbol (in_symbol > 0))"

definition registers_of :: "'r encoding \<Rightarrow> symbol \<Rightarrow> 'r decoder \<Rightarrow> 'r" where
  "registers_of enc in_symbol st = snd (encode enc (encoding_registers st) in_symbol (in_symbol > 0))"

definition edge_metric_of ::
  "'r encoding \<Rightarrow> reliability_matrix \<Rightarrow> options \<Rightarrow> int \<Rightarrow> symbol \<Rightarrow> 'r decoder \<Rightarrow> real" where
  "edge_metric_of enc relmat opts forward_depth in_symbol st =
     log2 (relmat_at relmat (out_symbol_of enc in_symbol st) (nat forward_depth)) - edge_bias opts"

definition forward_path_metric_of ::
  "'r encoding \<Rightarrow> reliability_matrix \<Rightarrow> options \<Rightarrow> addr \<Rightarrow> int \<Rightarrow> symbol \<Rightarrow> 'r decoder \<Rightarrow> real" where
  "forward_path_metric_of enc relmat opts node_edge forward_depth in_symbol st =
     edge_metric_of enc relmat opts forward_depth in_symbol st
       + get_path_metric (node_edges st ! node_edge)"

definition passes_metric_limit :: "options \<Rightarrow> real \<Rightarrow> bool" where
  "passes_metric_limit opts forward_path_metric =
     (\<not> use_metric_limit opts \<or> forward_path_metric > metric_limit opts)"

definition created_node_edge ::
  "'r encoding \<Rightarrow> reliability_matrix \<Rightarrow> options \<Rightarrow> addr \<Rightarrow> int \<Rightarrow> symbol \<Rightarrow> 'r decoder
     \<Rightarrow> 'r node_edge" where
  "created_node_edge enc relmat opts node_edge forward_depth in_symbol st =
     \<lparr>get_id = node_count st, get_incoming_node_edge = Some node_edge,
      get_in_symbol = in_symbol,
      get_edge_metric = edge_metric_of enc relmat opts forward_depth in_symbol st,
      get_path_metric = forward_path_metric_of enc relmat opts node_edge forward_depth in_symbol st,
      get_depth = forward_depth,
      get_registers = registers_of enc in_symbol st,
      get_outgoing_node_edges = replicate (2 ^ get_k enc) None\<rparr>"

text \<open>The edge metric of a node+edge is \<^verbatim>\<open>log2(relmat(out_symbol, depth)) - edge_bias\<close> for the
  output symbol the encoder gives for the node's input symbol from some registers.\<close>

definition edge_metric_ok ::
  "'r encoding \<Rightarrow> reliability_matrix \<Rightarrow> options \<Rightarrow> 'r node_edge \<Rightarrow> bool" where
  "edge_metric_ok enc relmat opts n =
     (\<exists>regs. get_edge_metric n =
        log2 (relmat_at relmat
               (fst (encode enc regs (get_in_symbol n) (get_in_symbol n > 0)))
               (nat (get_depth n))) - edge_bias opts)"

text \<open>A node+edge other than the root: its parent was allocated before it, it lies one level
  deeper, its path metric is the parent's plus its own edge metric, and its input symbol
  was within the scan of its depth.\<close>

definition child_ok ::
  "'r encoding \<Rightarrow> reliability_matrix \<Rightarrow> options \<Rightarrow> 'r node_edge list \<Rightarrow> addr \<Rightarrow> bool" where
  "child_ok enc relmat opts ns a =
     ((\<exists>p<a. get_incoming_node_edge (ns ! a) = Some p
          \<and> get_depth (ns ! a) = get_depth (ns ! p) + 1
          \<and> get_path_metric (ns ! a) = get_path_metric (ns ! p) + get_edge_metric (ns ! a))
      \<and> get_in_symbol (ns ! a) < end_symbol enc relmat opts (get_depth (ns ! a))
      \<and> edge_metric_ok enc relmat opts (ns ! a))"

text \<open>The tree: the root at address 0 with depth \<open>-1\<close> and path metric 0, creation ids equal
  to addresses, the node count equal to the number of allocated node+edges.\<close>

definition tree_inv ::
  "'r encoding \<Rightarrow> reliability_matrix \<Rightarrow> options \<Rightarrow> 'r decoder \<Rightarrow> bool" where
  "tree_inv enc relmat opts st =
     (node_edges st \<noteq> [] \<and> root_node st = Some 0
      \<and> node_count st = length (node_edges st)
      \<and> get_depth (node_edges st ! 0) = -1
      \<and> get_path_metric (node_edges st ! 0) = 0
      \<and> get_incoming_node_edge (node_edges st ! 0) = None
      \<and> (\<forall>a<length (node_edges st).
            get_id (node_edges st ! a) = a
            \<and> length (get_outgoing_node_edges (node_edges st ! a)) = 2 ^ get_k enc)
      \<and> (\<forall>a<length (node_edges st). 0 < a \<longrightarrow> child_ok enc relmat opts (node_edges st) a))"

text \<open>The stack: ordered by the comparator, no node+edge twice, and every entry keyed by
  the path metric and the id of the node+edge it points to, which is not the root.\<close>

definition stack_inv :: "'r decoder \<Rightarrow> bool" where
  "stack_inv st =
     (sorted_wrt ordering_greater (map fst (node_edge_stack st))
      \<and> distinct (map snd (node_edge_stack st))
      \<and> (\<forall>e \<in> set (node_edge_stack st).
            0 < snd e \<and> snd e < length (node_edges st)
            \<and> node_id (fst e) = get_id (node_edges st ! snd e)
            \<and> path_metric (fst e) = get_path_metric (node_edges st ! snd e)))"

text \<open>A node+edge whose outgoing array alone may have changed.\<close>

definition relinked :: "'r node_edge \<Rightarrow> 'r node_edge \<Rightarrow> bool" where
  "relinked n n' =
     (get_id n' = get_id n \<and> get_incoming_node_edge n' = get_incoming_node_edge n
      \<and> get_in_symbol n' = get_in_symbol n \<and> get_edge_metric n' = get_edge_metric n
      \<and> get_path_metric n' = get_path_metric n \<and> get_depth n' = get_depth n
      \<and> get_registers n' = get_registers n
      \<and> length (get_outgoing_node_edges n') = length (get_outgoing_node_edges n))"

text \<open>The effect of part of one expansion of the node+edge \<open>p\<close> on the tree and the stack.\<close>

definition grows :: "addr \<Rightarrow> int \<Rightarrow> 'r decoder \<Rightarrow> 'r decoder \<Rightarrow> bool" where
  "grows p fd st st' =
     (length (node_edges st) \<le> length (node_edges st')
      \<and> (\<forall>a<length (node_edges st). relinked (node_edges st ! a) (node_edges st' ! a))
      \<and> (\<forall>a. length (node_edges st) \<le> a \<and> a < length (node_edges st')
            \<longrightarrow> get_depth (node_edges st' ! a) = fd
               \<and> get_incoming_node_edge (node_edges st' ! a) = Some p)
      \<and> set (map snd (node_edge_stack st')) =
          set (map snd (node_edge_stack st)) \<union> {length (node_edges st) ..< length (node_edges st')}
      \<and> root_node st' = root_node st \<and> cur_depth st' = cur_depth st
      \<and> max_depth st' = max_depth st \<and> codeword_score st' = codeword_score st)"

text \<open>The state during the scan of the expansion of \<open>p\<close>.\<close>

definition visiting ::
  "'r encoding \<Rightarrow> reliability_matrix \<Rightarrow> options \<Rightarrow> addr \<Rightarrow> int \<Rightarrow> 'r decoder \<Rightarrow> bool" where
  "visiting enc relmat opts p fd st =
     (tree_inv enc relmat opts st \<and> stack_inv st \<and> p < length (node_edges st)
      \<and> fd = get_depth (node_edges st ! p) + 1)"

text \<open>What one call of \<open>visit_node_forward\<close> does to the tree and the stack.\<close>

definition expands :: "addr \<Rightarrow> 'r decoder \<Rightarrow> 'r decoder \<Rightarrow> bool" where
  "expands p st st' =
     (length (node_edges st) \<le> length (node_edges st')
      \<and> (\<forall>a<length (node_edges st). relinked (node_edges st ! a) (node_edges st' ! a))
      \<and> (\<forall>a. length (node_edges st) \<le> a \<and> a < length (node_edges st')
            \<longrightarrow> get_depth (node_edges st' ! a) = get_depth (node_edges st ! p) + 1
               \<and> get_incoming_node_edge (node_edges st' ! a) = Some p)
      \<and> set (map snd (node_edge_stack st')) =
          (set (map snd (node_edge_stack st)) \<union> {length (node_edges st) ..< length (node_edges st')})
            - (if get_depth (node_edges st ! p) \<ge> 0 then {p} else {})
      \<and> root_node st' = root_node st)"

subsection \<open>Decode runs\<close>

text \<open>The states at the head of the loop of \<^verbatim>\<open>decode\<close>, each with the set of node+edges that
  \<^verbatim>\<open>visit_node_forward\<close> has been called on so far: the state after the root's expansion, and
  the state after the expansion of the top of the stack while the loop condition holds.
  The node limit only ends a run earlier; it is left out here, so that the state in which
  \<^verbatim>\<open>decode\<close> gives up is a state of the run as well.\<close>

inductive run ::
  "'r encoding \<Rightarrow> reliability_matrix \<Rightarrow> options \<Rightarrow> 'r decoder \<Rightarrow> 'r decoder \<Rightarrow> addr set \<Rightarrow> bool"
  for enc relmat opts st0 where
  run_root:
    "run enc relmat opts st0 (visit_root enc relmat opts (decode_start enc st0))
       {the (root_node (decode_start enc st0))}"
| run_step:
    "run enc relmat opts st0 st X \<Longrightarrow> node_edge_stack st = (key, node) # rest
     \<Longrightarrow> get_depth (node_edges st ! node) < int (get_message_length relmat) - 1
     \<Longrightarrow> run enc relmat opts st0 (visit_node_forward enc relmat opts node st) (insert node X)"

subsection \<open>A small instance\<close>

text \<open>An encoder with one input bit, one output bit and one register that holds the last
  input bit; the output symbol is the input symbol.\<close>

definition ex_encoding :: "nat encoding" where
  "ex_encoding =
     \<lparr>get_k = 1, get_m = 1, get_n = 1, clear_registers = 0,
      encode = (\<lambda>regs in_symbol no_step. (in_symbol, in_symbol))\<rparr>"

text \<open>A reliability matrix for a message of two symbols: symbol 1 is the likelier at
  position 0, symbol 0 at position 1.\<close>

definition ex_relmat :: reliability_matrix where
  "ex_relmat =
     \<lparr>get_message_length = 2, get_nb_symbols_log2 = 1,
      relmat_at = (\<lambda>out_symbol position.
         if position = 0 then (if out_symbol = 0 then 1/4 else 1/2)
         else (if out_symbol = 0 then 1 else 1/8))\<rparr>"

definition ex_options :: options where
  "ex_options =
     \<lparr>use_node_limit = False, node_limit = 0, use_metric_limit = False, metric_limit = 0,
      tail_zeros = False, edge_bias = 0\<rparr>"

text \<open>A decoder that has not decoded yet.\<close>

definition ex_decoder :: "nat decoder" where
  "ex_decoder =
     \<lparr>node_count = 0, cur_depth = -1, max_depth = 0, codeword_score = 0,
      encoding_registers = 0, node_edges = [], root_node = None, node_edge_stack = []\<rparr>"

subsection \<open>A bound on the work left\<close>

text \<open>The number of node+edges of a complete tree of height \<open>h\<close> with \<open>E\<close> children per node,
  and its sum over the stack, each entry with the height left below it. Each pass of the loop of
  \<^verbatim>\<open>decode\<close> lowers the sum.\<close>

fun weight :: "nat \<Rightarrow> nat \<Rightarrow> nat" where
  "weight E 0 = 1"
| "weight E (Suc h) = 1 + E * weight E h"

definition remaining :: "'r encoding \<Rightarrow> reliability_matrix \<Rightarrow> 'r decoder \<Rightarrow> nat" where
  "remaining enc relmat st =
     (\<Sum>a \<in> set (map snd (node_edge_stack st)).
        weight (2 ^ get_k enc)
          (nat (int (get_message_length relmat) - 1 - get_depth (node_edges st ! a))))"

subsection \<open>The states of the small instance\<close>

text \<open>The decoder after the root's expansion and after the expansion of the node+edge 2, for
  the small instance without limits.\<close>

definition ex_node ::
  "nat \<Rightarrow> addr option \<Rightarrow> symbol \<Rightarrow> real \<Rightarrow> real \<Rightarrow> int \<Rightarrow> nat \<Rightarrow> addr option list \<Rightarrow> nat node_edge" where
  "ex_node i parent s em pm d regs out =
     \<lparr>get_id = i, get_incoming_node_edge = parent, get_in_symbol = s, get_edge_metric = em,
      get_path_metric = pm, get_depth = d, get_registers = regs, get_outgoing_node_edges = out\<rparr>"

definition ex_root_visited :: "nat decoder" where
  "ex_root_visited =
     \<lparr>node_count = 3, cur_depth = 0, max_depth = 0, codeword_score = 0, encoding_registers = 1,
      node_edges =
        [ex_node 0 None 0 0 0 (-1) 0 [Some 1, Some 2],
         ex_node 1 (Some 0) 0 (-2) (-2) 0 0 [None, None],
         ex_node 2 (Some 0) 1 (-1) (-1) 0 1 [None, None]],
      root_node = Some 0,
      node_edge_stack =
        [(\<lparr>path_metric = -1, node_id = 2\<rparr>, 2), (\<lparr>path_metric = -2, node_id = 1\<rparr>, 1)]\<rparr>"

definition ex_final :: "nat decoder" where
  "ex_final =
     \<lparr>node_count = 5, cur_depth = 1, max_depth = 1, codeword_score = 0, encoding_registers = 1,
      node_edges =
        [ex_node 0 None 0 0 0 (-1) 0 [Some 1, Some 2],
         ex_node 1 (Some 0) 0 (-2) (-2) 0 0 [None, None],
         ex_node 2 (Some 0) 1 (-1) (-1) 0 1 [Some 3, Some 4],
         ex_node 3 (Some 2) 0 0 (-1) 1 0 [None, None],
         ex_node 4 (Some 2) 1 (-3) (-4) 1 1 [None, None]],
      root_node = Some 0,
      node_edge_stack =
        [(\<lparr>path_metric = -1, node_id = 3\<rparr>, 3), (\<lparr>path_metric = -2, node_id = 1\<rparr>, 1),
         (\<lparr>path_metric = -4, node_id = 4\<rparr>, 4)]\<rparr>"

text \<open>A reliability matrix that rates every symbol alike, and the decoder after the root's
  expansion with it: the two children tie.\<close>

definition ex_tie_relmat :: reliability_matrix where
  "ex_tie_relmat = ex_relmat\<lparr>relmat_at := (\<lambda>out_symbol position. 1/2)\<rparr>"

definition ex_tie_root_visited :: "nat decoder" where
  "ex_tie_root_visited =
     \<lparr>node_count = 3, cur_depth = 0, max_depth = 0, codeword_score = 0, encoding_registers = 1,
      node_edges =
        [ex_node 0 None 0 0 0 (-1) 0 [Some 1, Some 2],
         ex_node 1 (Some 0) 0 (-1) (-1) 0 0 [None, None],
         ex_node 2 (Some 0) 1 (-1) (-1) 0 1 [None, None]],
      root_node = Some 0,
      node_edge_stack =
        [(\<lparr>path_metric = -1, node_id = 1\<rparr>, 1), (\<lparr>path_metric = -1, node_id = 2\<rparr>, 2)]\<rparr>"

text \<open>The small instance with a metric limit that prunes every child of the root, and the
  decoder after the root's expansion with it.\<close>

definition ex_pruning_options :: options where
  "ex_pruning_options = ex_options\<lparr>use_metric_limit := True, metric_limit := -1\<rparr>"

definition ex_pruned :: "nat decoder" where
  "ex_pruned =
     \<lparr>node_count = 1, cur_depth = 0, max_depth = 0, codeword_score = 0, encoding_registers = 1,
      node_edges = [ex_node 0 None 0 0 0 (-1) 0 [None, None]],
      root_node = Some 0, node_edge_stack = []\<rparr>"

text \<open>The small instance with \<open>get_m = 2\<close> and tail zeros on, and the decoder after the
  expansion of the node+edge 2 with it.\<close>

definition ex_tail_encoding :: "nat encoding" where
  "ex_tail_encoding = ex_encoding\<lparr>get_m := 2\<rparr>"

definition ex_tail_options :: options where
  "ex_tail_options = ex_options\<lparr>tail_zeros := True\<rparr>"

definition ex_tail_final :: "nat decoder" where
  "ex_tail_final =
     \<lparr>node_count = 4, cur_depth = 1, max_depth = 1, codeword_score = 0, encoding_registers = 0,
      node_edges =
        [ex_node 0 None 0 0 0 (-1) 0 [Some 1, Some 2],
         ex_node 1 (Some 0) 0 (-2) (-2) 0 0 [None, None],
         ex_node 2 (Some 0) 1 (-1) (-1) 0 1 [Some 3, None],
         ex_node 3 (Some 2) 0 0 (-1) 1 0 [None, None]],
      root_node = Some 0,
      node_edge_stack =
        [(\<lparr>path_metric = -1, node_id = 3\<rparr>, 3), (\<lparr>path_metric = -2, node_id = 1\<rparr>, 1)]\<rparr>"

text \<open>The small instance with the node limit 1.\<close>

definition ex_limit_options :: options where
  "ex_limit_options = ex_options\<lparr>use_node_limit := True, node_limit := 1\<rparr>"

subsection \<open>The candidates of an expansion, after the specification\<close>

text \<open>The specification's account of an expansion: for each candidate input symbol in scan
  order the encoder is stepped, the edge metric is \<^verbatim>\<open>log2(reliability) - edge_bias\<close>, the
  cumulative metric is the parent's plus the edge metric, and the candidate is kept if no
  metric floor is configured or the cumulative metric exceeds the floor. The function lists
  the input symbols of the candidates that are kept.\<close>

fun passing_candidates ::
  "'r encoding \<Rightarrow> reliability_matrix \<Rightarrow> options \<Rightarrow> real \<Rightarrow> int \<Rightarrow> 'r \<Rightarrow> symbol list
     \<Rightarrow> symbol list" where
  "passing_candidates enc relmat opts parent_metric forward_depth regs [] = []"
| "passing_candidates enc relmat opts parent_metric forward_depth regs (in_symbol # syms) =
     (let (out_symbol, regs') = encode enc regs in_symbol (in_symbol > 0);
          edge_metric = log2 (relmat_at relmat out_symbol (nat forward_depth)) - edge_bias opts;
          forward_path_metric = edge_metric + parent_metric
      in (if \<not> use_metric_limit opts \<or> forward_path_metric > metric_limit opts
          then [in_symbol] else [])
         @ passing_candidates enc relmat opts parent_metric forward_depth regs' syms)"

text \<open>The small instance with the metric limit \<open>-2\<close>, which the first child of the root meets
  exactly, and the decoder after the root's expansion with it.\<close>

definition ex_strict_options :: options where
  "ex_strict_options = ex_options\<lparr>use_metric_limit := True, metric_limit := -2\<rparr>"

definition ex_strict_root_visited :: "nat decoder" where
  "ex_strict_root_visited =
     \<lparr>node_count = 2, cur_depth = 0, max_depth = 0, codeword_score = 0, encoding_registers = 1,
      node_edges =
        [ex_node 0 None 0 0 0 (-1) 0 [None, Some 1],
         ex_node 1 (Some 0) 1 (-1) (-1) 0 1 [None, None]],
      root_node = Some 0,
      node_edge_stack = [(\<lparr>path_metric = -1, node_id = 1\<rparr>, 1)]\<rparr>"

section \<open>Lemmas\<close>

lemma ordering_greater_irrefl: "\<not> ordering_greater a a"
  by (simp add: ordering_greater_def)

lemma ordering_greater_trans:
  "ordering_greater a b \<Longrightarrow> ordering_greater b c \<Longrightarrow> ordering_greater a c"
  by (auto simp: ordering_greater_def split: if_splits)

lemma ordering_greater_asym: "ordering_greater a b \<Longrightarrow> \<not> ordering_greater b a"
  by (auto simp: ordering_greater_def split: if_splits)

lemma ordering_greater_total:
  "node_id a \<noteq> node_id b \<Longrightarrow> ordering_greater a b \<or> ordering_greater b a"
  by (auto simp: ordering_greater_def)

lemma fresh_key_Cons: "fresh_key key (e # xs) = (node_id (fst e) \<noteq> node_id key \<and> fresh_key key xs)"
  by (auto simp: fresh_key_def)

lemma set_stack_assign:
  "fresh_key key xs \<Longrightarrow> set (stack_assign key v xs) = insert (key, v) (set xs)"
proof (induction xs)
  case Nil
  then show ?case by simp
next
  case (Cons e xs)
  obtain k' v' where e: "e = (k', v')" by (cases e)
  from Cons.prems have ne: "node_id k' \<noteq> node_id key" and fr: "fresh_key key xs"
    by (simp_all add: fresh_key_Cons e)
  from ne have "ordering_greater k' key \<or> ordering_greater key k'"
    by (rule ordering_greater_total)
  with Cons.IH[OF fr] show ?case
    by (auto simp: e)
qed

lemma sorted_stack_assign:
  "fresh_key key xs \<Longrightarrow> sorted_wrt ordering_greater (map fst xs)
     \<Longrightarrow> sorted_wrt ordering_greater (map fst (stack_assign key v xs))"
proof (induction xs)
  case Nil
  then show ?case by simp
next
  case (Cons e xs)
  obtain k' v' where e: "e = (k', v')" by (cases e)
  from Cons.prems have ne: "node_id k' \<noteq> node_id key" and fr: "fresh_key key xs"
    by (simp_all add: fresh_key_Cons e)
  from Cons.prems have srt: "sorted_wrt ordering_greater (map fst xs)"
    and hd: "\<forall>k \<in> set (map fst xs). ordering_greater k' k"
    by (simp_all add: e)
  show ?case
  proof (cases "ordering_greater k' key")
    case True
    have "set (map fst (stack_assign key v xs)) = insert key (set (map fst xs))"
      using set_stack_assign[OF fr, of v] by (simp only: set_map) simp
    with True hd Cons.IH[OF fr srt] show ?thesis
      by (simp add: e)
  next
    case False
    with ne have gt: "ordering_greater key k'"
      using ordering_greater_total by blast
    have "\<forall>k \<in> set (map fst xs). ordering_greater key k"
      using hd gt ordering_greater_trans by blast
    with False gt srt hd show ?thesis
      by (simp add: e)
  qed
qed

lemma remove_node_from_stack_filter:
  "distinct (map snd xs) \<Longrightarrow> remove_node_from_stack p xs = filter (\<lambda>e. snd e \<noteq> p) xs"
proof (induction xs)
  case Nil
  then show ?case by simp
next
  case (Cons e xs)
  obtain k v where e: "e = (k, v)" by (cases e)
  from Cons.prems have "v \<notin> snd ` set xs" and d: "distinct (map snd xs)"
    by (simp_all add: e)
  then have "filter (\<lambda>e. snd e \<noteq> v) xs = xs"
    by (auto intro!: filter_True)
  with Cons.IH[OF d] show ?case
    by (auto simp: e)
qed

lemma visit_symbol_pruned:
  assumes "\<not> passes_metric_limit opts (forward_path_metric_of enc relmat opts p fd i st)"
  shows "visit_symbol enc relmat opts p fd i st = st\<lparr>encoding_registers := registers_of enc i st\<rparr>"
  using assms
  by (simp add: visit_symbol_def Let_def passes_metric_limit_def forward_path_metric_of_def
      edge_metric_of_def out_symbol_of_def registers_of_def case_prod_beta)

lemma visit_symbol_created:
  assumes "passes_metric_limit opts (forward_path_metric_of enc relmat opts p fd i st)"
  shows "visit_symbol enc relmat opts p fd i st =
     st\<lparr>encoding_registers := registers_of enc i st,
        node_edges := (node_edges st @ [created_node_edge enc relmat opts p fd i st])
          [p := (node_edges st ! p)\<lparr>get_outgoing_node_edges :=
                  (get_outgoing_node_edges (node_edges st ! p))[i := Some (length (node_edges st))]\<rparr>],
        node_edge_stack :=
          stack_assign \<lparr>path_metric = forward_path_metric_of enc relmat opts p fd i st,
                         node_id = node_count st\<rparr>
            (length (node_edges st)) (node_edge_stack st),
        node_count := node_count st + 1\<rparr>"
  using assms
  by (simp add: visit_symbol_def Let_def passes_metric_limit_def forward_path_metric_of_def
      edge_metric_of_def out_symbol_of_def registers_of_def created_node_edge_def case_prod_beta)

lemma relinked_refl: "relinked n n"
  by (simp add: relinked_def)

lemma relinked_trans: "relinked a b \<Longrightarrow> relinked b c \<Longrightarrow> relinked a c"
  by (simp add: relinked_def)

lemma grows_refl: "grows p fd st st"
  by (auto simp: grows_def relinked_refl)

lemma grows_trans:
  assumes "grows p fd st st'" "grows p fd st' st''"
  shows "grows p fd st st''"
proof -
  let ?l = "length (node_edges st)" and ?l' = "length (node_edges st')"
    and ?l'' = "length (node_edges st'')"
  from assms have le: "?l \<le> ?l'" "?l' \<le> ?l''"
    by (simp_all add: grows_def)
  have old: "relinked (node_edges st ! a) (node_edges st'' ! a)" if "a < ?l" for a
  proof -
    from that assms(1) have "relinked (node_edges st ! a) (node_edges st' ! a)"
      by (simp add: grows_def)
    moreover from that le assms(2) have "relinked (node_edges st' ! a) (node_edges st'' ! a)"
      by (simp add: grows_def)
    ultimately show ?thesis by (rule relinked_trans)
  qed
  have new: "get_depth (node_edges st'' ! a) = fd
      \<and> get_incoming_node_edge (node_edges st'' ! a) = Some p"
    if "?l \<le> a" "a < ?l''" for a
  proof (cases "a < ?l'")
    case True
    with that assms(1) have "get_depth (node_edges st' ! a) = fd
      \<and> get_incoming_node_edge (node_edges st' ! a) = Some p"
      by (simp add: grows_def)
    moreover from True assms(2) have "relinked (node_edges st' ! a) (node_edges st'' ! a)"
      by (simp add: grows_def)
    ultimately show ?thesis by (simp add: relinked_def)
  next
    case False
    with that assms(2) show ?thesis by (simp add: grows_def)
  qed
  have "{?l ..< ?l'} \<union> {?l' ..< ?l''} = {?l ..< ?l''}"
    using le by (rule ivl_disj_un_two(3))
  with assms have "set (map snd (node_edge_stack st'')) =
      set (map snd (node_edge_stack st)) \<union> {?l ..< ?l''}"
    by (simp only: grows_def Un_assoc)
  with assms le old new show ?thesis
    by (simp add: grows_def)
qed

lemma distinct_stack_assign:
  "fresh_key key xs \<Longrightarrow> v \<notin> snd ` set xs \<Longrightarrow> distinct (map snd xs)
     \<Longrightarrow> distinct (map snd (stack_assign key v xs))"
proof (induction xs)
  case Nil
  then show ?case by simp
next
  case (Cons e xs)
  obtain k' v' where e: "e = (k', v')" by (cases e)
  from Cons.prems have ne: "node_id k' \<noteq> node_id key" and fr: "fresh_key key xs"
    by (simp_all add: fresh_key_Cons e)
  from ne have tot: "ordering_greater k' key \<or> ordering_greater key k'"
    by (rule ordering_greater_total)
  from Cons.prems have v: "v \<notin> snd ` set xs" "v \<noteq> v'" and d: "distinct (map snd xs)"
    and v': "v' \<notin> snd ` set xs"
    by (auto simp: e)
  have "snd ` set (stack_assign key v xs) = insert v (snd ` set xs)"
    using set_stack_assign[OF fr, of v] by simp
  with tot v v' d Cons.IH[OF fr v(1) d] show ?case
    by (auto simp: e)
qed

lemma child_ok_relinked:
  assumes "\<forall>b\<le>a. relinked (ns ! b) (ns' ! b)" and "child_ok enc relmat opts ns a"
  shows "child_ok enc relmat opts ns' a"
proof -
  from assms(2) obtain p where p: "p < a" "get_incoming_node_edge (ns ! a) = Some p"
      "get_depth (ns ! a) = get_depth (ns ! p) + 1"
      "get_path_metric (ns ! a) = get_path_metric (ns ! p) + get_edge_metric (ns ! a)"
    and sym: "get_in_symbol (ns ! a) < end_symbol enc relmat opts (get_depth (ns ! a))"
    and em: "edge_metric_ok enc relmat opts (ns ! a)"
    by (auto simp: child_ok_def)
  from assms(1) have ra: "relinked (ns ! a) (ns' ! a)" by simp
  from assms(1) p(1) have rp: "relinked (ns ! p) (ns' ! p)" by simp
  from em ra have em': "edge_metric_ok enc relmat opts (ns' ! a)"
    by (simp add: edge_metric_ok_def relinked_def)
  from p ra rp have "\<exists>p<a. get_incoming_node_edge (ns' ! a) = Some p
          \<and> get_depth (ns' ! a) = get_depth (ns' ! p) + 1
          \<and> get_path_metric (ns' ! a) = get_path_metric (ns' ! p) + get_edge_metric (ns' ! a)"
    by (intro exI[of _ p]) (simp add: relinked_def)
  with sym ra em' show ?thesis
    by (simp add: child_ok_def relinked_def)
qed

lemma visiting_registers:
  "visiting enc relmat opts p fd (st\<lparr>encoding_registers := r\<rparr>) = visiting enc relmat opts p fd st"
  by (simp add: visiting_def tree_inv_def stack_inv_def)

lemma grows_registers: "grows p fd st (st\<lparr>encoding_registers := r\<rparr>)"
  by (auto simp: grows_def relinked_refl)

lemma visit_symbol_created_inv:
  assumes vis: "visiting enc relmat opts p fd st"
    and i: "i < end_symbol enc relmat opts fd"
    and pass: "passes_metric_limit opts (forward_path_metric_of enc relmat opts p fd i st)"
  shows "visiting enc relmat opts p fd (visit_symbol enc relmat opts p fd i st)"
    and "grows p fd st (visit_symbol enc relmat opts p fd i st)"
proof -
  let ?ns = "node_edges st"
  let ?c = "created_node_edge enc relmat opts p fd i st"
  let ?linked = "(?ns ! p)\<lparr>get_outgoing_node_edges :=
                  (get_outgoing_node_edges (?ns ! p))[i := Some (length ?ns)]\<rparr>"
  let ?ns' = "(?ns @ [?c])[p := ?linked]"
  let ?key = "\<lparr>path_metric = forward_path_metric_of enc relmat opts p fd i st,
                         node_id = node_count st\<rparr>"
  let ?stk = "node_edge_stack st"
  let ?stk' = "stack_assign ?key (length ?ns) ?stk"
  let ?st' = "visit_symbol enc relmat opts p fd i st"
  from vis have tinv: "tree_inv enc relmat opts st" and sinv: "stack_inv st"
    and p: "p < length ?ns" and fd: "fd = get_depth (?ns ! p) + 1"
    by (simp_all add: visiting_def)
  from tinv have cnt: "node_count st = length ?ns" and ne: "?ns \<noteq> []"
    by (simp_all add: tree_inv_def)
  have ns': "node_edges ?st' = ?ns'" and stk': "node_edge_stack ?st' = ?stk'"
    and cnt': "node_count ?st' = node_count st + 1" and root': "root_node ?st' = root_node st"
    and misc: "cur_depth ?st' = cur_depth st" "max_depth ?st' = max_depth st"
      "codeword_score ?st' = codeword_score st"
    by (simp_all add: visit_symbol_created[OF pass])
  have len: "length ?ns' = length ?ns + 1" by simp
  have old: "relinked (?ns ! a) (?ns' ! a)" if "a < length ?ns" for a
    using that by (cases "a = p") (simp_all add: nth_list_update nth_append relinked_def)
  have new: "?ns' ! length ?ns = ?c"
    using p by (simp add: nth_list_update nth_append)
  have rp: "relinked (?ns ! p) (?ns' ! p)" using p by (rule old)
  \<comment> \<open>the tree\<close>
  have c_ok: "child_ok enc relmat opts ?ns' (length ?ns)"
  proof -
    have "edge_metric_ok enc relmat opts ?c"
      by (auto simp: edge_metric_ok_def created_node_edge_def edge_metric_of_def out_symbol_of_def)
    moreover have "get_in_symbol ?c < end_symbol enc relmat opts (get_depth ?c)"
      using i by (simp add: created_node_edge_def)
    moreover have "\<exists>q<length ?ns. get_incoming_node_edge ?c = Some q
          \<and> get_depth ?c = get_depth (?ns' ! q) + 1
          \<and> get_path_metric ?c = get_path_metric (?ns' ! q) + get_edge_metric ?c"
      using p fd rp
      by (intro exI[of _ p])
         (simp add: created_node_edge_def forward_path_metric_of_def relinked_def)
    ultimately show ?thesis
      by (simp only: child_ok_def new)
  qed
  have children: "child_ok enc relmat opts ?ns' a" if "a < length ?ns'" "0 < a" for a
  proof (cases "a < length ?ns")
    case True
    with tinv that have "child_ok enc relmat opts ?ns a" by (simp add: tree_inv_def)
    moreover from True old have "\<forall>b\<le>a. relinked (?ns ! b) (?ns' ! b)" by simp
    ultimately show ?thesis by (rule child_ok_relinked[rotated])
  next
    case False
    with that len have "a = length ?ns" by simp
    with c_ok show ?thesis by simp
  qed
  have ids: "get_id (?ns' ! a) = a \<and> length (get_outgoing_node_edges (?ns' ! a)) = 2 ^ get_k enc"
    if "a < length ?ns'" for a
  proof (cases "a < length ?ns")
    case True
    with tinv old[OF True] show ?thesis by (simp add: tree_inv_def relinked_def)
  next
    case False
    with that len have "a = length ?ns" by simp
    with new cnt show ?thesis by (simp add: created_node_edge_def)
  qed
  from ne have "0 < length ?ns" by simp
  from old[OF this] tinv have root: "get_depth (?ns' ! 0) = -1" "get_path_metric (?ns' ! 0) = 0"
      "get_incoming_node_edge (?ns' ! 0) = None"
    by (simp_all add: tree_inv_def relinked_def)
  have tinv': "tree_inv enc relmat opts ?st'"
    unfolding tree_inv_def ns' cnt' root'
    using tinv root ids children len cnt by (simp add: tree_inv_def)
  \<comment> \<open>the stack\<close>
  have fresh: "fresh_key ?key ?stk"
    using sinv tinv cnt by (auto simp: fresh_key_def stack_inv_def tree_inv_def)
  have notin: "length ?ns \<notin> snd ` set ?stk"
    using sinv by (auto simp: stack_inv_def)
  have set': "set ?stk' = insert (?key, length ?ns) (set ?stk)"
    using fresh by (rule set_stack_assign)
  have entries: "0 < snd e \<and> snd e < length ?ns'
            \<and> node_id (fst e) = get_id (?ns' ! snd e)
            \<and> path_metric (fst e) = get_path_metric (?ns' ! snd e)" if "e \<in> set ?stk'" for e
  proof (cases "e = (?key, length ?ns)")
    case True
    with new ne cnt show ?thesis by (simp add: created_node_edge_def)
  next
    case False
    with that set' have e: "e \<in> set ?stk" by simp
    with sinv have lt: "snd e < length ?ns" by (simp add: stack_inv_def)
    from old[OF lt] lt e sinv show ?thesis by (auto simp: stack_inv_def relinked_def)
  qed
  have sinv': "stack_inv ?st'"
    unfolding stack_inv_def ns' stk'
    using sinv fresh notin entries
    by (simp add: stack_inv_def sorted_stack_assign distinct_stack_assign)
  have p': "p < length (node_edges ?st')"
    unfolding ns' using p by simp
  have "get_depth (node_edges ?st' ! p) = get_depth (?ns ! p)"
    unfolding ns' using rp by (simp add: relinked_def)
  with fd have fd': "fd = get_depth (node_edges ?st' ! p) + 1"
    by simp
  from tinv' sinv' p' fd' show "visiting enc relmat opts p fd ?st'"
    unfolding visiting_def by blast
  have "set (map snd ?stk') = set (map snd ?stk) \<union> {length ?ns ..< length ?ns'}"
    using set' by (simp add: len)
  moreover have "get_depth (?ns' ! a) = fd \<and> get_incoming_node_edge (?ns' ! a) = Some p"
    if "length ?ns \<le> a \<and> a < length ?ns'" for a
  proof -
    from that len have "a = length ?ns" by simp
    with new show ?thesis by (simp add: created_node_edge_def)
  qed
  ultimately show "grows p fd st ?st'"
    unfolding grows_def ns' stk' root' misc using old by simp
qed

lemma visit_symbol_inv:
  assumes "visiting enc relmat opts p fd st" and "i < end_symbol enc relmat opts fd"
  shows "visiting enc relmat opts p fd (visit_symbol enc relmat opts p fd i st)
     \<and> grows p fd st (visit_symbol enc relmat opts p fd i st)"
proof (cases "passes_metric_limit opts (forward_path_metric_of enc relmat opts p fd i st)")
  case True
  with assms show ?thesis
    by (simp add: visit_symbol_created_inv)
next
  case False
  with assms(1) show ?thesis
    by (simp add: visit_symbol_pruned visiting_registers grows_registers)
qed

lemma fold_visit_symbol_inv:
  assumes "visiting enc relmat opts p fd st" and "\<forall>i \<in> set syms. i < end_symbol enc relmat opts fd"
  shows "visiting enc relmat opts p fd (fold (visit_symbol enc relmat opts p fd) syms st)
     \<and> grows p fd st (fold (visit_symbol enc relmat opts p fd) syms st)"
  using assms
proof (induction syms arbitrary: st)
  case Nil
  then show ?case by (simp add: grows_refl)
next
  case (Cons i syms)
  let ?st1 = "visit_symbol enc relmat opts p fd i st"
  from Cons.prems have v1: "visiting enc relmat opts p fd ?st1" and g1: "grows p fd st ?st1"
    using visit_symbol_inv[of enc relmat opts p fd st i] by simp_all
  from Cons.prems have "\<forall>i \<in> set syms. i < end_symbol enc relmat opts fd" by simp
  from Cons.IH[OF v1 this] g1 show ?case
    by (auto intro: grows_trans)
qed

lemma depth_nonneg:
  assumes "tree_inv enc relmat opts st"
  shows "a < length (node_edges st) \<Longrightarrow> 0 < a \<Longrightarrow> 0 \<le> get_depth (node_edges st ! a)"
proof (induction a rule: less_induct)
  case (less a)
  with assms have "child_ok enc relmat opts (node_edges st) a"
    by (simp add: tree_inv_def)
  then obtain p where p: "p < a" "get_depth (node_edges st ! a) = get_depth (node_edges st ! p) + 1"
    by (auto simp: child_ok_def)
  show ?case
  proof (cases "p = 0")
    case True
    with p assms show ?thesis by (simp add: tree_inv_def)
  next
    case False
    with p less.prems less.IH[of p] show ?thesis by simp
  qed
qed

lemma stack_inv_remove:
  assumes "stack_inv st"
  shows "stack_inv (st\<lparr>node_edge_stack := remove_node_from_stack p (node_edge_stack st)\<rparr>)"
    and "set (map snd (remove_node_from_stack p (node_edge_stack st)))
           = set (map snd (node_edge_stack st)) - {p}"
proof -
  from assms have d: "distinct (map snd (node_edge_stack st))"
    by (simp add: stack_inv_def)
  note eq = remove_node_from_stack_filter[OF d, of p]
  from assms show "stack_inv (st\<lparr>node_edge_stack := remove_node_from_stack p (node_edge_stack st)\<rparr>)"
    by (simp add: stack_inv_def eq sorted_wrt_filter sorted_wrt_map distinct_map_filter)
  show "set (map snd (remove_node_from_stack p (node_edge_stack st)))
           = set (map snd (node_edge_stack st)) - {p}"
    unfolding eq by auto
qed

lemma visit_node_forward_inv:
  assumes tinv: "tree_inv enc relmat opts st" and sinv: "stack_inv st"
    and p: "p < length (node_edges st)"
  shows "tree_inv enc relmat opts (visit_node_forward enc relmat opts p st)"
    and "stack_inv (visit_node_forward enc relmat opts p st)"
    and "expands p st (visit_node_forward enc relmat opts p st)"
proof -
  define d where "d = get_depth (node_edges st ! p)"
  define fd where "fd = d + 1"
  define st1 where
    "st1 = (if d \<ge> 0 then st\<lparr>encoding_registers := get_registers (node_edges st ! p)\<rparr> else st)"
  define st2 where
    "st2 = fold (visit_symbol enc relmat opts p fd) [0 ..< end_symbol enc relmat opts fd] st1"
  define st3 where "st3 = st2\<lparr>cur_depth := fd\<rparr>"
  define st4 where
    "st4 = (if cur_depth st3 > max_depth st3 then st3\<lparr>max_depth := cur_depth st3\<rparr> else st3)"
  define st' where "st' = visit_node_forward enc relmat opts p st"
  have st': "st' = (if d \<ge> 0
       then st4\<lparr>node_edge_stack := remove_node_from_stack p (node_edge_stack st4)\<rparr> else st4)"
    by (simp add: st'_def visit_node_forward_def Let_def d_def fd_def st1_def st2_def st3_def st4_def)
  have v1: "visiting enc relmat opts p fd st1"
    using tinv sinv p by (simp add: visiting_def tree_inv_def stack_inv_def st1_def fd_def d_def)
  have g1: "grows p fd st st1"
    by (simp add: st1_def grows_registers grows_refl)
  from fold_visit_symbol_inv[OF v1, of "[0 ..< end_symbol enc relmat opts fd]"]
  have v2: "visiting enc relmat opts p fd st2" and g2: "grows p fd st1 st2"
    by (simp_all add: st2_def)
  from grows_trans[OF g1 g2] have g: "grows p fd st st2" .
  have ne4: "node_edges st4 = node_edges st2" and stk4: "node_edge_stack st4 = node_edge_stack st2"
    and root4: "root_node st4 = root_node st2" and cnt4: "node_count st4 = node_count st2"
    by (simp_all add: st4_def st3_def)
  from v2 have t4: "tree_inv enc relmat opts st4" and s4: "stack_inv st4"
    by (simp_all add: visiting_def tree_inv_def stack_inv_def ne4 stk4 root4 cnt4)
  have ne': "node_edges st' = node_edges st2" and root': "root_node st' = root_node st2"
    and cnt': "node_count st' = node_count st2"
    unfolding st' by (simp_all add: ne4 root4 cnt4)
  show "tree_inv enc relmat opts (visit_node_forward enc relmat opts p st)"
    using t4 unfolding st'_def[symmetric] tree_inv_def ne' root' cnt' ne4 root4 cnt4 .
  show "stack_inv (visit_node_forward enc relmat opts p st)"
    using s4 stack_inv_remove(1)[OF s4, of p] unfolding st'_def[symmetric] st' by simp
  have stk': "set (map snd (node_edge_stack st')) =
      set (map snd (node_edge_stack st2)) - (if d \<ge> 0 then {p} else {})"
    unfolding st' using stack_inv_remove(2)[OF s4, of p] by (simp add: stk4)
  from g show "expands p st (visit_node_forward enc relmat opts p st)"
    unfolding st'_def[symmetric] expands_def ne' root' stk'
    by (simp add: grows_def fd_def d_def)
qed

lemma decode_start_fields:
  "node_count (decode_start enc st0) = 1"
  "length (node_edges (decode_start enc st0)) = 1"
  "root_node (decode_start enc st0) = Some 0"
  "node_edge_stack (decode_start enc st0) = []"
  "get_depth (node_edges (decode_start enc st0) ! 0) = -1"
  "get_id (node_edges (decode_start enc st0) ! 0) = 0"
  by (simp_all add: decode_start_def reset_def init_root_def Let_def)

lemma decode_start_inv:
  "tree_inv enc relmat opts (decode_start enc st0)" "stack_inv (decode_start enc st0)"
  by (simp_all add: tree_inv_def stack_inv_def decode_start_def reset_def init_root_def Let_def)

lemma run_inv:
  assumes "run enc relmat opts st0 st X"
  shows "tree_inv enc relmat opts st \<and> stack_inv st
     \<and> X \<subseteq> {..< length (node_edges st)} \<and> 0 \<in> X
     \<and> set (map snd (node_edge_stack st)) = {..< length (node_edges st)} - X"
  using assms
proof (induction rule: run.induct)
  case run_root
  let ?s = "decode_start enc st0"
  let ?st = "visit_root enc relmat opts ?s"
  have st: "?st = visit_node_forward enc relmat opts 0 ?s"
    by (simp add: visit_root_def decode_start_fields)
  have p: "0 < length (node_edges ?s)" by (simp add: decode_start_fields)
  note inv = visit_node_forward_inv[OF decode_start_inv(1)[of enc relmat opts st0]
      decode_start_inv(2)[of enc st0] p]
  from inv(3) have len: "1 \<le> length (node_edges ?st)"
    and fr: "set (map snd (node_edge_stack ?st)) = {1 ..< length (node_edges ?st)}"
    unfolding st by (simp_all add: expands_def decode_start_fields)
  have "{1 ..< length (node_edges ?st)} = {..< length (node_edges ?st)} - {0}"
    by auto
  with inv(1,2) len fr show ?case
    unfolding st by (auto simp: decode_start_fields)
next
  case (run_step st X key node rest)
  let ?st' = "visit_node_forward enc relmat opts node st"
  let ?l = "length (node_edges st)" and ?l' = "length (node_edges ?st')"
  from run_step.IH have tinv: "tree_inv enc relmat opts st" and sinv: "stack_inv st"
    and X: "X \<subseteq> {..< ?l}" "0 \<in> X"
    and fr: "set (map snd (node_edge_stack st)) = {..< ?l} - X"
    by simp_all
  from run_step.hyps(2) sinv have node: "0 < node" "node < ?l"
    by (simp_all add: stack_inv_def)
  from depth_nonneg[OF tinv node(2) node(1)] have d: "0 \<le> get_depth (node_edges st ! node)" .
  note inv = visit_node_forward_inv[OF tinv sinv node(2)]
  from inv(3) d have len: "?l \<le> ?l'"
    and fr': "set (map snd (node_edge_stack ?st')) =
      (set (map snd (node_edge_stack st)) \<union> {?l ..< ?l'}) - {node}"
    by (simp_all add: expands_def)
  have "({..< ?l} - X \<union> {?l ..< ?l'}) - {node} = {..< ?l'} - insert node X"
    using X len by auto
  with fr fr' have "set (map snd (node_edge_stack ?st')) = {..< ?l'} - insert node X"
    by simp
  with inv(1,2) X node len show ?case
    by auto
qed

lemma end_symbol_bounds:
  "1 \<le> end_symbol enc relmat opts fd" "end_symbol enc relmat opts fd \<le> 2 ^ get_k enc"
  by (simp_all add: end_symbol_def)

lemma visit_symbol_length:
  "length (node_edges (visit_symbol enc relmat opts p fd i st)) \<le> length (node_edges st) + 1
   \<and> node_count (visit_symbol enc relmat opts p fd i st) \<le> node_count st + 1
   \<and> (\<not> use_metric_limit opts \<longrightarrow>
        length (node_edges (visit_symbol enc relmat opts p fd i st)) = length (node_edges st) + 1)"
proof (cases "passes_metric_limit opts (forward_path_metric_of enc relmat opts p fd i st)")
  case True
  then show ?thesis by (simp add: visit_symbol_created)
next
  case False
  then have "use_metric_limit opts" by (auto simp: passes_metric_limit_def)
  with False show ?thesis by (simp add: visit_symbol_pruned)
qed

lemma fold_visit_symbol_length:
  "length (node_edges (fold (visit_symbol enc relmat opts p fd) syms st))
      \<le> length (node_edges st) + length syms
   \<and> node_count (fold (visit_symbol enc relmat opts p fd) syms st) \<le> node_count st + length syms
   \<and> (\<not> use_metric_limit opts \<longrightarrow>
        length (node_edges (fold (visit_symbol enc relmat opts p fd) syms st))
          = length (node_edges st) + length syms)"
proof (induction syms arbitrary: st)
  case Nil
  then show ?case by simp
next
  case (Cons i syms)
  from Cons.IH[of "visit_symbol enc relmat opts p fd i st"]
    visit_symbol_length[of enc relmat opts p fd i st]
  show ?case by auto
qed

lemma visit_node_forward_length:
  "length (node_edges (visit_node_forward enc relmat opts p st))
      \<le> length (node_edges st) + 2 ^ get_k enc"
  "node_count (visit_node_forward enc relmat opts p st) \<le> node_count st + 2 ^ get_k enc"
  "\<not> use_metric_limit opts \<Longrightarrow>
     length (node_edges st) < length (node_edges (visit_node_forward enc relmat opts p st))"
proof -
  define fd where "fd = get_depth (node_edges st ! p) + 1"
  define st1 where "st1 =
    (if get_depth (node_edges st ! p) \<ge> 0
     then st\<lparr>encoding_registers := get_registers (node_edges st ! p)\<rparr> else st)"
  define st2 where
    "st2 = fold (visit_symbol enc relmat opts p fd) [0 ..< end_symbol enc relmat opts fd] st1"
  have ne: "node_edges (visit_node_forward enc relmat opts p st) = node_edges st2"
    and cnt: "node_count (visit_node_forward enc relmat opts p st) = node_count st2"
    by (simp_all add: visit_node_forward_def Let_def st2_def st1_def fd_def)
  have one: "node_edges st1 = node_edges st" "node_count st1 = node_count st"
    by (simp_all add: st1_def)
  note f = fold_visit_symbol_length[of enc relmat opts p fd "[0 ..< end_symbol enc relmat opts fd]" st1,
      folded st2_def, unfolded one]
  note b = end_symbol_bounds[of enc relmat opts fd]
  from f b show "length (node_edges (visit_node_forward enc relmat opts p st))
      \<le> length (node_edges st) + 2 ^ get_k enc"
    unfolding ne by simp
  from f b show "node_count (visit_node_forward enc relmat opts p st) \<le> node_count st + 2 ^ get_k enc"
    unfolding cnt by simp
  from f b show "length (node_edges st) < length (node_edges (visit_node_forward enc relmat opts p st))"
    if "\<not> use_metric_limit opts"
    unfolding ne using that by simp
qed

lemma expand_decreases:
  assumes tinv: "tree_inv enc relmat opts st" and sinv: "stack_inv st"
    and top: "node_edge_stack st = (key, node) # rest"
    and d: "get_depth (node_edges st ! node) < int (get_message_length relmat) - 1"
  shows "remaining enc relmat (visit_node_forward enc relmat opts node st) < remaining enc relmat st"
proof -
  define st' where "st' = visit_node_forward enc relmat opts node st"
  define E :: nat where "E = 2 ^ get_k enc"
  define L where "L = int (get_message_length relmat)"
  define F where "F = set (map snd (node_edge_stack st))"
  define l where "l = length (node_edges st)"
  define l' where "l' = length (node_edges st')"
  define w where "w = (\<lambda>a. weight E (nat (L - 1 - get_depth (node_edges st ! a))))"
  define w' where "w' = (\<lambda>a. weight E (nat (L - 1 - get_depth (node_edges st' ! a))))"
  from top sinv have node: "0 < node" "node < l" "node \<in> F"
    by (auto simp: stack_inv_def l_def F_def)
  from sinv have F: "F \<subseteq> {..< l}" "finite F"
    by (auto simp: stack_inv_def l_def F_def)
  from depth_nonneg[OF tinv] node have d0: "0 \<le> get_depth (node_edges st ! node)"
    by (simp add: l_def)
  from visit_node_forward_inv(3)[OF tinv sinv, of node] node(2) d0
  have len: "l \<le> l'"
    and old: "\<And>a. a < l \<Longrightarrow> relinked (node_edges st ! a) (node_edges st' ! a)"
    and new: "\<And>a. l \<le> a \<Longrightarrow> a < l' \<Longrightarrow> get_depth (node_edges st' ! a) = get_depth (node_edges st ! node) + 1"
    and F': "set (map snd (node_edge_stack st')) = (F \<union> {l ..< l'}) - {node}"
    by (simp_all add: expands_def l_def l'_def st'_def F_def)
  from visit_node_forward_length(1)[of enc relmat opts node st] have cnt: "l' - l \<le> E"
    by (simp add: l_def l'_def st'_def E_def)
  obtain h where h: "nat (L - 1 - get_depth (node_edges st ! node)) = Suc h"
    using d by (cases "nat (L - 1 - get_depth (node_edges st ! node))") (simp_all add: L_def)
  then have h': "nat (L - 1 - (get_depth (node_edges st ! node) + 1)) = h"
    by simp
  have split: "(F \<union> {l ..< l'}) - {node} = (F - {node}) \<union> {l ..< l'}"
    using node(2) by auto
  have disj: "(F - {node}) \<inter> {l ..< l'} = {}"
    using F(1) by auto
  have "remaining enc relmat st' = sum w' ((F - {node}) \<union> {l ..< l'})"
    unfolding remaining_def F' split w'_def E_def L_def ..
  also have "\<dots> = sum w' (F - {node}) + sum w' {l ..< l'}"
    using F(2) disj by (simp add: sum.union_disjoint)
  also have "sum w' (F - {node}) = sum w (F - {node})"
  proof (rule sum.cong[OF refl])
    fix a assume "a \<in> F - {node}"
    with F(1) have "a < l" by auto
    from old[OF this] show "w' a = w a" by (simp add: w_def w'_def relinked_def)
  qed
  also have "sum w' {l ..< l'} = (l' - l) * weight E h"
  proof -
    have "w' a = weight E h" if "a \<in> {l ..< l'}" for a
    proof -
      from that new have "get_depth (node_edges st' ! a) = get_depth (node_edges st ! node) + 1"
        by simp
      with h' show ?thesis unfolding w'_def by simp
    qed
    then have "sum w' {l ..< l'} = sum (\<lambda>a. weight E h) {l ..< l'}"
      by (intro sum.cong[OF refl])
    then show ?thesis by simp
  qed
  also have "sum w (F - {node}) + (l' - l) * weight E h < sum w F"
  proof -
    have "sum w F = w node + sum w (F - {node})"
      using F(2) node(3) by (rule sum.remove)
    moreover have "w node = 1 + E * weight E h"
      by (simp add: w_def h)
    moreover have "(l' - l) * weight E h \<le> E * weight E h"
      using cnt by (rule mult_le_mono1)
    ultimately show ?thesis by linarith
  qed
  also have "sum w F = remaining enc relmat st"
    unfolding remaining_def w_def F_def E_def L_def ..
  finally show ?thesis by (simp add: st'_def)
qed

lemma collect_symbols_total:
  assumes tinv: "tree_inv enc relmat opts st"
  shows "a < length (node_edges st) \<Longrightarrow>
     \<exists>syms. collect_symbols (node_edges st) a = Some syms
        \<and> int (length syms) = get_depth (node_edges st ! a) + 1"
proof (induction a rule: less_induct)
  case (less a)
  show ?case
  proof (cases "a = 0")
    case True
    with tinv show ?thesis
      by (subst collect_symbols.simps) (simp add: tree_inv_def)
  next
    case False
    with less.prems tinv have "child_ok enc relmat opts (node_edges st) a"
      by (simp add: tree_inv_def)
    then obtain p where p: "p < a" "get_incoming_node_edge (node_edges st ! a) = Some p"
      "get_depth (node_edges st ! a) = get_depth (node_edges st ! p) + 1"
      by (auto simp: child_ok_def)
    from less.IH[OF p(1)] p(1) less.prems obtain syms where
      syms: "collect_symbols (node_edges st) p = Some syms"
        "int (length syms) = get_depth (node_edges st ! p) + 1"
      by auto
    with p show ?thesis
      by (subst collect_symbols.simps) simp
  qed
qed

lemma decode_loop_rule:
  assumes "run enc relmat opts st0 st X" and "P st"
    and step: "\<And>s Y key node rest. run enc relmat opts st0 s Y \<Longrightarrow> P s
      \<Longrightarrow> node_edge_stack s = (key, node) # rest
      \<Longrightarrow> get_depth (node_edges s ! node) < int (get_message_length relmat) - 1
      \<Longrightarrow> \<not> (use_node_limit opts
             \<and> node_count (visit_node_forward enc relmat opts node s) > node_limit opts)
      \<Longrightarrow> P (visit_node_forward enc relmat opts node s)"
  shows "\<exists>b st'. decode_loop enc relmat opts st = Some (b, st')
      \<and> (\<exists>X'. run enc relmat opts st0 st' X')
      \<and> (b \<longrightarrow> use_node_limit opts \<and> node_limit opts < node_count st'
             \<and> (\<exists>s Y key node rest. run enc relmat opts st0 s Y \<and> P s
                   \<and> node_edge_stack s = (key, node) # rest
                   \<and> st' = visit_node_forward enc relmat opts node s))
      \<and> (\<not> b \<longrightarrow> P st'
             \<and> (\<forall>key node rest. node_edge_stack st' = (key, node) # rest
                  \<longrightarrow> int (get_message_length relmat) - 1 \<le> get_depth (node_edges st' ! node)))"
  using assms(1,2)
proof (induction "remaining enc relmat st" arbitrary: st X rule: less_induct)
  case less
  show ?case
  proof (cases "node_edge_stack st")
    case Nil
    then have "decode_loop enc relmat opts st = Some (False, st)"
      by (subst decode_loop.simps) simp
    with less.prems Nil show ?thesis by auto
  next
    case (Cons e rest)
    obtain key node where e: "e = (key, node)" by (cases e)
    note top = Cons[unfolded e]
    show ?thesis
    proof (cases "get_depth (node_edges st ! node) < int (get_message_length relmat) - 1")
      case False
      with top have "decode_loop enc relmat opts st = Some (False, st)"
        by (subst decode_loop.simps) simp
      with less.prems top False show ?thesis by auto
    next
      case True
      define st' where "st' = visit_node_forward enc relmat opts node st"
      from run_step[OF less.prems(1) top True]
      have run': "run enc relmat opts st0 st' (insert node X)"
        by (simp add: st'_def)
      show ?thesis
      proof (cases "use_node_limit opts \<and> node_count st' > node_limit opts")
        case limit: True
        with top True have "decode_loop enc relmat opts st = Some (True, st')"
          by (subst decode_loop.simps) (simp add: st'_def Let_def)
        with limit run' less.prems top show ?thesis
          unfolding st'_def by blast
      next
        case nolimit: False
        with top True have eq: "decode_loop enc relmat opts st = decode_loop enc relmat opts st'"
          by (subst decode_loop.simps) (auto simp: st'_def Let_def)
        from step[OF less.prems(1,2) top True] nolimit have P': "P st'"
          by (simp add: st'_def)
        from run_inv[OF less.prems(1)] have "tree_inv enc relmat opts st" "stack_inv st"
          by simp_all
        from expand_decreases[OF this top True]
        have "remaining enc relmat st' < remaining enc relmat st"
          by (simp add: st'_def)
        from less.hyps[OF this run' P'] eq show ?thesis by simp
      qed
    qed
  qed
qed

lemma run_nonempty:
  assumes "run enc relmat opts st0 st X" and nolimit: "\<not> use_metric_limit opts"
  shows "node_edge_stack st \<noteq> []"
  using assms(1)
proof (cases rule: run.cases)
  case run_root
  let ?s = "decode_start enc st0"
  from visit_node_forward_length(3)[OF nolimit, of ?s enc relmat 0]
  have "1 < length (node_edges st)"
    by (simp add: run_root visit_root_def decode_start_fields)
  moreover from run_inv[OF assms(1)]
  have "set (map snd (node_edge_stack st)) = {..< length (node_edges st)} - {0}"
    by (simp add: run_root decode_start_fields)
  ultimately have "1 \<in> set (map snd (node_edge_stack st))" by simp
  then show ?thesis by auto
next
  case (run_step s Y key node rest)
  let ?l = "length (node_edges s)"
  from run_inv[OF run_step(3)] have Y: "Y \<subseteq> {..< ?l}" and sinv: "stack_inv s"
    by simp_all
  from sinv run_step(4) have node: "node < ?l" by (simp add: stack_inv_def)
  from visit_node_forward_length(3)[OF nolimit, of s enc relmat node]
  have "?l < length (node_edges st)" by (simp add: run_step)
  moreover from run_inv[OF assms(1)]
  have "set (map snd (node_edge_stack st)) = {..< length (node_edges st)} - insert node Y"
    by (simp add: run_step)
  ultimately have "?l \<in> set (map snd (node_edge_stack st))"
    using Y node by auto
  then show ?thesis by auto
qed

lemma decode_loop_run:
  assumes "run enc relmat opts st0 st X"
  shows "\<exists>b st'. decode_loop enc relmat opts st = Some (b, st')
      \<and> (\<exists>X'. run enc relmat opts st0 st' X')
      \<and> (b \<longrightarrow> use_node_limit opts \<and> node_limit opts < node_count st')
      \<and> (\<not> b \<longrightarrow> (\<forall>key node rest. node_edge_stack st' = (key, node) # rest
                  \<longrightarrow> int (get_message_length relmat) - 1 \<le> get_depth (node_edges st' ! node)))"
  using decode_loop_rule[OF assms, of "\<lambda>s. True"] by blast

lemma stack_top_key:
  assumes "stack_inv st" and "node_edge_stack st = (key, node) # rest"
  shows "node < length (node_edges st)" "0 < node"
    "path_metric key = get_path_metric (node_edges st ! node)"
    "node_id key = get_id (node_edges st ! node)"
  using assms by (simp_all add: stack_inv_def)

lemma log2_values: "log2 1 = 0" "log2 (1/2) = -1" "log2 (1/4) = -2" "log2 (1/8) = -3"
proof -
  show "log2 1 = 0" by (simp add: log2_def)
  show "log2 (1/2) = -1" by (simp add: log2_def log_divide)
  have "log 2 4 = 2" using log_pow_cancel[of 2 2] by simp
  then show "log2 (1/4) = -2" by (simp add: log2_def log_divide)
  have "log 2 8 = 3" using log_pow_cancel[of 2 3] by simp
  then show "log2 (1/8) = -3" by (simp add: log2_def log_divide)
qed

lemmas ex_defs = ex_encoding_def ex_relmat_def ex_options_def ex_decoder_def ex_node_def

lemmas run_defs = decode_start_def reset_def init_root_def visit_root_def visit_node_forward_def
  end_symbol_def visit_symbol_def Let_def log2_values upt_rec ordering_greater_def
  numeral_2_eq_2 numeral_3_eq_3

lemma ex_visit_root:
  assumes "\<not> use_metric_limit opts" "\<not> tail_zeros opts" "edge_bias opts = 0"
  shows "visit_root ex_encoding ex_relmat opts (decode_start ex_encoding st0) = ex_root_visited"
  using assms by (simp add: ex_root_visited_def ex_defs run_defs)

lemma ex_visit_top:
  assumes "\<not> use_metric_limit opts" "\<not> tail_zeros opts" "edge_bias opts = 0"
  shows "visit_node_forward ex_encoding ex_relmat opts 2 ex_root_visited = ex_final"
  using assms by (simp add: ex_root_visited_def ex_final_def ex_defs run_defs)

lemma ex_decode_loop:
  assumes "\<not> use_metric_limit opts" "\<not> tail_zeros opts" "edge_bias opts = 0" "\<not> use_node_limit opts"
  shows "decode_loop ex_encoding ex_relmat opts ex_root_visited = Some (False, ex_final)"
proof -
  have "decode_loop ex_encoding ex_relmat opts ex_final = Some (False, ex_final)"
    by (subst decode_loop.simps) (simp add: ex_final_def ex_defs)
  moreover have "decode_loop ex_encoding ex_relmat opts ex_root_visited
      = decode_loop ex_encoding ex_relmat opts
          (visit_node_forward ex_encoding ex_relmat opts 2 ex_root_visited)"
    using assms(4)
    by (subst decode_loop.simps) (simp add: ex_root_visited_def ex_defs Let_def)
  ultimately show ?thesis
    using assms by (simp add: ex_visit_top)
qed

lemma ex_tie_visit_root:
  "visit_root ex_encoding ex_tie_relmat ex_options (decode_start ex_encoding ex_decoder)
     = ex_tie_root_visited"
  by (simp add: ex_tie_root_visited_def ex_tie_relmat_def ex_defs run_defs)

lemma ex_run_root:
  "run ex_encoding ex_relmat ex_options ex_decoder ex_root_visited {0}"
  using run_root[of ex_encoding ex_relmat ex_options ex_decoder]
  by (simp add: ex_visit_root ex_options_def decode_start_fields)

lemma ex_run_final:
  "run ex_encoding ex_relmat ex_options ex_decoder ex_final {2, 0}"
proof -
  have top: "node_edge_stack ex_root_visited
      = (\<lparr>path_metric = -1, node_id = 2\<rparr>, 2) # [(\<lparr>path_metric = -2, node_id = 1\<rparr>, 1)]"
    by (simp add: ex_root_visited_def)
  have d: "get_depth (node_edges ex_root_visited ! 2) < int (get_message_length ex_relmat) - 1"
    by (simp add: ex_root_visited_def ex_defs)
  from run_step[OF ex_run_root top d] show ?thesis
    by (simp add: ex_visit_top ex_options_def)
qed

lemma ex_pruned_visit_root:
  "visit_root ex_encoding ex_relmat ex_pruning_options (decode_start ex_encoding ex_decoder)
     = ex_pruned"
  by (simp add: ex_pruned_def ex_pruning_options_def ex_defs run_defs)

lemma ex_pruned_decode:
  "decode ex_encoding ex_relmat ex_pruning_options ex_decoder [] = Some (Inr False, ex_pruned, [])"
proof -
  have "decode_loop ex_encoding ex_relmat ex_pruning_options ex_pruned = Some (False, ex_pruned)"
    by (subst decode_loop.simps) (simp add: ex_pruned_def)
  then show ?thesis
    by (simp add: decode_def decode_result_def ex_pruned_visit_root)
       (simp add: ex_pruned_def ex_pruning_options_def ex_defs)
qed

lemma stack_assign_member: "v \<in> snd ` set (stack_assign key v xs)"
proof (induction xs)
  case Nil
  then show ?case by simp
next
  case (Cons e xs)
  obtain k' v' where e: "e = (k', v')" by (cases e)
  from Cons.IH show ?case
    by (simp add: e)
qed

lemma ex_tail_visit_root:
  "visit_root ex_tail_encoding ex_relmat ex_tail_options (decode_start ex_tail_encoding ex_decoder)
     = ex_root_visited"
  by (simp add: ex_root_visited_def ex_tail_encoding_def ex_tail_options_def ex_defs run_defs)

lemma ex_tail_visit_top:
  "visit_node_forward ex_tail_encoding ex_relmat ex_tail_options 2 ex_root_visited = ex_tail_final"
  by (simp add: ex_root_visited_def ex_tail_final_def ex_tail_encoding_def ex_tail_options_def
      ex_defs run_defs)

lemma ex_tail_run_root:
  "run ex_tail_encoding ex_relmat ex_tail_options ex_decoder ex_root_visited {0}"
  using run_root[of ex_tail_encoding ex_relmat ex_tail_options ex_decoder]
  by (simp add: ex_tail_visit_root decode_start_fields)

lemma ex_tail_run_final:
  "run ex_tail_encoding ex_relmat ex_tail_options ex_decoder ex_tail_final {2, 0}"
proof -
  have top: "node_edge_stack ex_root_visited
      = (\<lparr>path_metric = -1, node_id = 2\<rparr>, 2) # [(\<lparr>path_metric = -2, node_id = 1\<rparr>, 1)]"
    by (simp add: ex_root_visited_def)
  have d: "get_depth (node_edges ex_root_visited ! 2) < int (get_message_length ex_relmat) - 1"
    by (simp add: ex_root_visited_def ex_defs)
  from run_step[OF ex_tail_run_root top d] show ?thesis
    by (simp add: ex_tail_visit_top)
qed

lemma ex_tail_decode:
  "decode ex_tail_encoding ex_relmat ex_tail_options ex_decoder []
     = Some (Inr True, ex_tail_final\<lparr>codeword_score := -1\<rparr>, [1, 0])"
proof -
  have "decode_loop ex_tail_encoding ex_relmat ex_tail_options ex_tail_final
      = Some (False, ex_tail_final)"
    by (subst decode_loop.simps) (simp add: ex_tail_final_def ex_defs)
  moreover have "decode_loop ex_tail_encoding ex_relmat ex_tail_options ex_root_visited
      = decode_loop ex_tail_encoding ex_relmat ex_tail_options
          (visit_node_forward ex_tail_encoding ex_relmat ex_tail_options 2 ex_root_visited)"
    by (subst decode_loop.simps)
       (simp add: ex_root_visited_def ex_tail_options_def ex_defs Let_def)
  ultimately have loop: "decode_loop ex_tail_encoding ex_relmat ex_tail_options ex_root_visited
      = Some (False, ex_tail_final)"
    by (simp add: ex_tail_visit_top)
  have "collect_symbols (node_edges ex_tail_final) 0 = Some []"
    by (subst collect_symbols.simps) (simp add: ex_tail_final_def ex_defs)
  then have "collect_symbols (node_edges ex_tail_final) 2 = Some [1]"
    by (subst collect_symbols.simps) (simp add: ex_tail_final_def ex_defs)
  then have syms: "collect_symbols (node_edges ex_tail_final) 3 = Some [0, 1]"
    by (subst collect_symbols.simps) (simp add: ex_tail_final_def ex_defs)
  have valid: "\<not> get_message_length ex_relmat < get_m ex_tail_encoding"
    "get_nb_symbols_log2 ex_relmat = get_n ex_tail_encoding"
    by (simp_all add: ex_tail_encoding_def ex_defs)
  have top: "node_edge_stack ex_tail_final = (\<lparr>path_metric = -1, node_id = 3\<rparr>, 3)
       # [(\<lparr>path_metric = -2, node_id = 1\<rparr>, 1)]"
    by (simp add: ex_tail_final_def)
  from loop syms valid top show ?thesis
    by (simp add: decode_def decode_result_def back_track_def ex_tail_visit_root)
qed

lemma ex_limit_decode:
  "decode ex_encoding ex_relmat ex_limit_options ex_decoder [] = Some (Inr False, ex_final, [])"
proof -
  have opts: "\<not> use_metric_limit ex_limit_options" "\<not> tail_zeros ex_limit_options"
    "edge_bias ex_limit_options = 0" "use_node_limit ex_limit_options"
    "node_limit ex_limit_options = 1"
    by (simp_all add: ex_limit_options_def ex_options_def)
  have top: "node_edge_stack ex_root_visited
      = (\<lparr>path_metric = -1, node_id = 2\<rparr>, 2) # [(\<lparr>path_metric = -2, node_id = 1\<rparr>, 1)]"
    by (simp add: ex_root_visited_def)
  have d: "get_depth (node_edges ex_root_visited ! 2) < int (get_message_length ex_relmat) - 1"
    by (simp add: ex_root_visited_def ex_defs)
  have cnt: "node_count ex_final = 5" by (simp add: ex_final_def)
  have loop: "decode_loop ex_encoding ex_relmat ex_limit_options ex_root_visited
      = Some (True, ex_final)"
    by (subst decode_loop.simps) (simp add: top d ex_visit_top opts cnt)
  have valid: "\<not> get_message_length ex_relmat < get_m ex_encoding"
    "get_nb_symbols_log2 ex_relmat = get_n ex_encoding"
    by (simp_all add: ex_defs)
  from loop valid show ?thesis
    by (simp add: decode_def ex_visit_root opts)
qed

text \<open>One pass of the scan of \<^verbatim>\<open>visit_node_forward\<close>, for one candidate input symbol: a
  node+edge is created, linked, stacked and counted if the forward path metric passes the
  metric limit test, and nothing but the encoder changes otherwise.\<close>

lemma visit_symbol_effect:
  assumes "node_edge < length (node_edges st)"
    and "in_symbol < length (get_outgoing_node_edges (node_edges st ! node_edge))"
  shows "let st' = visit_symbol enc relmat opts node_edge forward_depth in_symbol st;
             out_symbol = fst (encode enc (encoding_registers st) in_symbol (in_symbol > 0));
             edge_metric = log2 (relmat_at relmat out_symbol (nat forward_depth)) - edge_bias opts;
             forward_path_metric = get_path_metric (node_edges st ! node_edge) + edge_metric;
             child = length (node_edges st)
         in if \<not> use_metric_limit opts \<or> forward_path_metric > metric_limit opts
            then length (node_edges st') = length (node_edges st) + 1
               \<and> node_count st' = node_count st + 1
               \<and> get_id (node_edges st' ! child) = node_count st
               \<and> get_incoming_node_edge (node_edges st' ! child) = Some node_edge
               \<and> get_in_symbol (node_edges st' ! child) = in_symbol
               \<and> get_edge_metric (node_edges st' ! child) = edge_metric
               \<and> get_path_metric (node_edges st' ! child) = forward_path_metric
               \<and> get_depth (node_edges st' ! child) = forward_depth
               \<and> get_outgoing_node_edges (node_edges st' ! node_edge) ! in_symbol = Some child
               \<and> child \<in> set (map snd (node_edge_stack st'))
            else node_edges st' = node_edges st \<and> node_count st' = node_count st
               \<and> node_edge_stack st' = node_edge_stack st"
proof (cases "passes_metric_limit opts
    (forward_path_metric_of enc relmat opts node_edge forward_depth in_symbol st)")
  case True
  then have cond: "\<not> use_metric_limit opts
      \<or> get_path_metric (node_edges st ! node_edge)
          + (log2 (relmat_at relmat
               (fst (encode enc (encoding_registers st) in_symbol (in_symbol > 0)))
               (nat forward_depth)) - edge_bias opts) > metric_limit opts"
    by (simp add: passes_metric_limit_def forward_path_metric_of_def edge_metric_of_def
        out_symbol_of_def add.commute)
  from assms cond show ?thesis
    unfolding Let_def visit_symbol_created[OF True]
    by (simp add: nth_append created_node_edge_def forward_path_metric_of_def edge_metric_of_def
        out_symbol_of_def stack_assign_member)
next
  case False
  then have cond: "\<not> (\<not> use_metric_limit opts
      \<or> get_path_metric (node_edges st ! node_edge)
          + (log2 (relmat_at relmat
               (fst (encode enc (encoding_registers st) in_symbol (in_symbol > 0)))
               (nat forward_depth)) - edge_bias opts) > metric_limit opts)"
    by (simp add: passes_metric_limit_def forward_path_metric_of_def edge_metric_of_def
        out_symbol_of_def add.commute)
  from cond show ?thesis
    unfolding Let_def visit_symbol_pruned[OF False]
    by simp
qed

lemma passing_candidates_Cons:
  "passing_candidates enc relmat opts (get_path_metric (node_edges st ! p)) fd
       (encoding_registers st) (i # syms) =
     (if passes_metric_limit opts (forward_path_metric_of enc relmat opts p fd i st)
      then [i] else [])
     @ passing_candidates enc relmat opts (get_path_metric (node_edges st ! p)) fd
         (registers_of enc i st) syms"
  by (simp add: Let_def case_prod_beta passes_metric_limit_def forward_path_metric_of_def
      edge_metric_of_def out_symbol_of_def registers_of_def)

lemma fold_visit_symbol_kept:
  assumes "visiting enc relmat opts p fd st" and "\<forall>i \<in> set syms. i < end_symbol enc relmat opts fd"
  shows "map get_in_symbol
           (drop (length (node_edges st))
              (node_edges (fold (visit_symbol enc relmat opts p fd) syms st)))
         = passing_candidates enc relmat opts (get_path_metric (node_edges st ! p)) fd
             (encoding_registers st) syms"
  using assms
proof (induction syms arbitrary: st)
  case Nil
  then show ?case by simp
next
  case (Cons i syms)
  define st1 where "st1 = visit_symbol enc relmat opts p fd i st"
  define final where "final = fold (visit_symbol enc relmat opts p fd) syms st1"
  from Cons.prems have i: "i < end_symbol enc relmat opts fd"
    and rest: "\<forall>i \<in> set syms. i < end_symbol enc relmat opts fd"
    by simp_all
  from visit_symbol_inv[OF Cons.prems(1) i]
  have v1: "visiting enc relmat opts p fd st1" and g1: "grows p fd st st1"
    by (simp_all add: st1_def)
  from fold_visit_symbol_inv[OF v1 rest] have g2: "grows p fd st1 final"
    by (simp add: final_def)
  from Cons.prems(1) have p: "p < length (node_edges st)"
    by (simp add: visiting_def)
  with g1 have pm1: "get_path_metric (node_edges st1 ! p) = get_path_metric (node_edges st ! p)"
    by (simp add: grows_def relinked_def)
  note IH = Cons.IH[OF v1 rest, folded final_def, unfolded pm1]
  have fold: "fold (visit_symbol enc relmat opts p fd) (i # syms) st = final"
    by (simp add: final_def st1_def)
  let ?l = "length (node_edges st)"
  show ?case
  proof (cases "passes_metric_limit opts (forward_path_metric_of enc relmat opts p fd i st)")
    case False
    then have "st1 = st\<lparr>encoding_registers := registers_of enc i st\<rparr>"
      by (simp add: st1_def visit_symbol_pruned)
    then have "node_edges st1 = node_edges st" "encoding_registers st1 = registers_of enc i st"
      by simp_all
    with IH False show ?thesis
      unfolding fold passing_candidates_Cons by simp
  next
    case True
    from visit_symbol_created[OF True] p
    have len1: "length (node_edges st1) = ?l + 1"
      and regs1: "encoding_registers st1 = registers_of enc i st"
      and new: "get_in_symbol (node_edges st1 ! ?l) = i"
      by (simp_all add: st1_def nth_append created_node_edge_def)
    from g2 len1 have len2: "?l < length (node_edges final)"
      and "relinked (node_edges st1 ! ?l) (node_edges final ! ?l)"
      by (simp_all add: grows_def)
    with new have sym: "get_in_symbol (node_edges final ! ?l) = i"
      by (simp add: relinked_def)
    have "drop ?l (node_edges final) = node_edges final ! ?l # drop (?l + 1) (node_edges final)"
      using len2 by (simp add: Cons_nth_drop_Suc)
    with IH True sym show ?thesis
      unfolding fold passing_candidates_Cons len1 regs1 by simp
  qed
qed

text \<open>The outgoing slots of \<open>p\<close> during the scan: the slot of each created node+edge's input
  symbol points to it, and slots of symbols outside the scan are not written.\<close>

lemma fold_visit_symbol_links:
  assumes "visiting enc relmat opts p fd st" and "\<forall>i \<in> set syms. i < end_symbol enc relmat opts fd"
    and "distinct syms"
  shows "(\<forall>a. length (node_edges st) \<le> a
            \<and> a < length (node_edges (fold (visit_symbol enc relmat opts p fd) syms st))
          \<longrightarrow> get_in_symbol (node_edges (fold (visit_symbol enc relmat opts p fd) syms st) ! a)
                \<in> set syms
            \<and> get_outgoing_node_edges
                 (node_edges (fold (visit_symbol enc relmat opts p fd) syms st) ! p)
                 ! get_in_symbol (node_edges (fold (visit_symbol enc relmat opts p fd) syms st) ! a)
               = Some a)
     \<and> (\<forall>j. j \<notin> set syms \<longrightarrow>
          get_outgoing_node_edges
            (node_edges (fold (visit_symbol enc relmat opts p fd) syms st) ! p) ! j
          = get_outgoing_node_edges (node_edges st ! p) ! j)"
  using assms
proof (induction syms arbitrary: st)
  case Nil
  then show ?case by simp
next
  case (Cons i syms)
  define st1 where "st1 = visit_symbol enc relmat opts p fd i st"
  define final where "final = fold (visit_symbol enc relmat opts p fd) syms st1"
  from Cons.prems have i: "i < end_symbol enc relmat opts fd"
    and rest: "\<forall>i \<in> set syms. i < end_symbol enc relmat opts fd"
    and dist: "distinct syms" "i \<notin> set syms"
    by simp_all
  from visit_symbol_inv[OF Cons.prems(1) i]
  have v1: "visiting enc relmat opts p fd st1" and g1: "grows p fd st st1"
    by (simp_all add: st1_def)
  from fold_visit_symbol_inv[OF v1 rest] have g2: "grows p fd st1 final"
    by (simp add: final_def)
  from Cons.prems(1) have p: "p < length (node_edges st)"
    and tinv: "tree_inv enc relmat opts st"
    by (simp_all add: visiting_def)
  from tinv p have slots: "length (get_outgoing_node_edges (node_edges st ! p)) = 2 ^ get_k enc"
    by (simp add: tree_inv_def)
  from i end_symbol_bounds(2)[of enc relmat opts fd] have i': "i < 2 ^ get_k enc"
    by simp
  note IH = Cons.IH[OF v1 rest dist(1), folded final_def]
  have fold: "fold (visit_symbol enc relmat opts p fd) (i # syms) st = final"
    by (simp add: final_def st1_def)
  let ?l = "length (node_edges st)"
  let ?out = "\<lambda>s. get_outgoing_node_edges (node_edges s ! p)"
  have other: "?out st1 ! j = ?out st ! j" if "j \<noteq> i" for j
  proof (cases "passes_metric_limit opts (forward_path_metric_of enc relmat opts p fd i st)")
    case True
    from visit_symbol_created[OF True] p that show ?thesis
      by (simp add: st1_def nth_list_update nth_append)
  next
    case False
    then show ?thesis by (simp add: st1_def visit_symbol_pruned)
  qed
  have unwritten: "?out final ! j = ?out st ! j" if "j \<notin> set (i # syms)" for j
  proof -
    from that have "j \<notin> set syms" "j \<noteq> i" by simp_all
    with IH other show ?thesis by simp
  qed
  have linked: "get_in_symbol (node_edges final ! a) \<in> set (i # syms)
            \<and> ?out final ! get_in_symbol (node_edges final ! a) = Some a"
    if a: "?l \<le> a" "a < length (node_edges final)" for a
  proof (cases "length (node_edges st1) \<le> a")
    case True
    with IH a show ?thesis by simp
  next
    case False
    from g1 have "?l \<le> length (node_edges st1)" by (simp add: grows_def)
    have created: "passes_metric_limit opts (forward_path_metric_of enc relmat opts p fd i st)"
    proof (rule ccontr)
      assume "\<not> passes_metric_limit opts (forward_path_metric_of enc relmat opts p fd i st)"
      then have "node_edges st1 = node_edges st"
        by (simp add: st1_def visit_symbol_pruned)
      with False a show False by simp
    qed
    from visit_symbol_created[OF created] p
    have len1: "length (node_edges st1) = ?l + 1"
      and new: "get_in_symbol (node_edges st1 ! ?l) = i"
      and slot: "?out st1 ! i = Some ?l"
      using i' slots by (simp_all add: st1_def nth_append created_node_edge_def)
    from False a len1 have a_eq: "a = ?l" by simp
    from g2 len1 have "relinked (node_edges st1 ! ?l) (node_edges final ! ?l)"
      by (simp add: grows_def)
    with new have sym: "get_in_symbol (node_edges final ! ?l) = i"
      by (simp add: relinked_def)
    from IH dist(2) have "?out final ! i = ?out st1 ! i" by simp
    with slot sym a_eq show ?thesis by simp
  qed
  from linked unwritten show ?case
    unfolding fold by blast
qed

lemma visit_node_forward_scan:
  assumes tinv: "tree_inv enc relmat opts st" and sinv: "stack_inv st"
    and p: "p < length (node_edges st)"
  shows "map get_in_symbol
           (drop (length (node_edges st)) (node_edges (visit_node_forward enc relmat opts p st)))
         = passing_candidates enc relmat opts (get_path_metric (node_edges st ! p))
             (get_depth (node_edges st ! p) + 1)
             (if get_depth (node_edges st ! p) \<ge> 0 then get_registers (node_edges st ! p)
              else encoding_registers st)
             [0 ..< end_symbol enc relmat opts (get_depth (node_edges st ! p) + 1)]"
    and "\<forall>a. length (node_edges st) \<le> a
            \<and> a < length (node_edges (visit_node_forward enc relmat opts p st))
          \<longrightarrow> get_outgoing_node_edges (node_edges (visit_node_forward enc relmat opts p st) ! p)
                 ! get_in_symbol (node_edges (visit_node_forward enc relmat opts p st) ! a)
               = Some a"
proof -
  define d where "d = get_depth (node_edges st ! p)"
  define fd where "fd = d + 1"
  define st1 where
    "st1 = (if d \<ge> 0 then st\<lparr>encoding_registers := get_registers (node_edges st ! p)\<rparr> else st)"
  define st2 where
    "st2 = fold (visit_symbol enc relmat opts p fd) [0 ..< end_symbol enc relmat opts fd] st1"
  have ne: "node_edges (visit_node_forward enc relmat opts p st) = node_edges st2"
    by (simp add: visit_node_forward_def Let_def st2_def st1_def fd_def d_def)
  have one: "node_edges st1 = node_edges st"
    "encoding_registers st1
       = (if d \<ge> 0 then get_registers (node_edges st ! p) else encoding_registers st)"
    by (simp_all add: st1_def)
  have v1: "visiting enc relmat opts p fd st1"
    using tinv sinv p by (simp add: visiting_def tree_inv_def stack_inv_def st1_def fd_def d_def)
  have syms: "\<forall>i \<in> set [0 ..< end_symbol enc relmat opts fd]. i < end_symbol enc relmat opts fd"
    by simp
  from fold_visit_symbol_kept[OF v1 syms]
  show "map get_in_symbol
           (drop (length (node_edges st)) (node_edges (visit_node_forward enc relmat opts p st)))
         = passing_candidates enc relmat opts (get_path_metric (node_edges st ! p))
             (get_depth (node_edges st ! p) + 1)
             (if get_depth (node_edges st ! p) \<ge> 0 then get_registers (node_edges st ! p)
              else encoding_registers st)
             [0 ..< end_symbol enc relmat opts (get_depth (node_edges st ! p) + 1)]"
    unfolding ne one st2_def[symmetric] by (simp add: fd_def d_def)
  from fold_visit_symbol_links[OF v1 syms distinct_upt]
  show "\<forall>a. length (node_edges st) \<le> a
            \<and> a < length (node_edges (visit_node_forward enc relmat opts p st))
          \<longrightarrow> get_outgoing_node_edges (node_edges (visit_node_forward enc relmat opts p st) ! p)
                 ! get_in_symbol (node_edges (visit_node_forward enc relmat opts p st) ! a)
               = Some a"
    unfolding ne one st2_def[symmetric] by blast
qed

lemma ex_strict_visit_root:
  "visit_node_forward ex_encoding ex_relmat ex_strict_options 0 (decode_start ex_encoding ex_decoder)
     = ex_strict_root_visited"
  by (simp add: ex_strict_root_visited_def ex_strict_options_def ex_defs run_defs)

lemma run_depth_bound:
  assumes "run enc relmat opts st0 st X"
  shows "\<forall>a<length (node_edges st).
     get_depth (node_edges st ! a) \<le> max 0 (int (get_message_length relmat) - 1)"
  using assms
proof (induction rule: run.induct)
  case run_root
  let ?s = "decode_start enc st0"
  let ?st = "visit_root enc relmat opts ?s"
  have st: "?st = visit_node_forward enc relmat opts 0 ?s"
    by (simp add: visit_root_def decode_start_fields)
  have p: "0 < length (node_edges ?s)" by (simp add: decode_start_fields)
  from visit_node_forward_inv(3)[OF decode_start_inv(1)[of enc relmat opts st0]
      decode_start_inv(2)[of enc st0] p]
  have old: "relinked (node_edges ?s ! 0) (node_edges ?st ! 0)"
    and new: "\<And>a. 1 \<le> a \<Longrightarrow> a < length (node_edges ?st) \<Longrightarrow> get_depth (node_edges ?st ! a) = 0"
    unfolding st by (simp_all add: expands_def decode_start_fields)
  show ?case
  proof (intro allI impI)
    fix a assume a: "a < length (node_edges ?st)"
    show "get_depth (node_edges ?st ! a) \<le> max 0 (int (get_message_length relmat) - 1)"
    proof (cases "a = 0")
      case True
      with old show ?thesis by (simp add: relinked_def decode_start_fields)
    next
      case False
      with new[of a] a show ?thesis by simp
    qed
  qed
next
  case (run_step st X key node rest)
  let ?st' = "visit_node_forward enc relmat opts node st"
  from run_inv[OF run_step.hyps(1)] have tinv: "tree_inv enc relmat opts st"
    and sinv: "stack_inv st" by simp_all
  note n = stack_top_key(1)[OF sinv run_step.hyps(2)]
  from visit_node_forward_inv(3)[OF tinv sinv n]
  have old: "\<And>a. a < length (node_edges st) \<Longrightarrow> relinked (node_edges st ! a) (node_edges ?st' ! a)"
    and new: "\<And>a. length (node_edges st) \<le> a \<Longrightarrow> a < length (node_edges ?st')
        \<Longrightarrow> get_depth (node_edges ?st' ! a) = get_depth (node_edges st ! node) + 1"
    by (simp_all add: expands_def)
  show ?case
  proof (intro allI impI)
    fix a assume a: "a < length (node_edges ?st')"
    show "get_depth (node_edges ?st' ! a) \<le> max 0 (int (get_message_length relmat) - 1)"
    proof (cases "a < length (node_edges st)")
      case True
      with old[OF True] run_step.IH show ?thesis by (simp add: relinked_def)
    next
      case False
      with new[of a] a run_step.hyps(3) show ?thesis by simp
    qed
  qed
qed

lemma ex_tail_plain_decode:
  "decode ex_encoding ex_relmat ex_tail_options ex_decoder []
     = Some (Inr True, ex_final\<lparr>codeword_score := -1\<rparr>, [1, 0])"
proof -
  have root: "visit_root ex_encoding ex_relmat ex_tail_options (decode_start ex_encoding ex_decoder)
      = ex_root_visited"
    by (simp add: ex_root_visited_def ex_tail_options_def ex_defs run_defs)
  have visit: "visit_node_forward ex_encoding ex_relmat ex_tail_options 2 ex_root_visited = ex_final"
    by (simp add: ex_root_visited_def ex_final_def ex_tail_options_def ex_defs run_defs)
  have "decode_loop ex_encoding ex_relmat ex_tail_options ex_final = Some (False, ex_final)"
    by (subst decode_loop.simps) (simp add: ex_final_def ex_defs)
  moreover have "decode_loop ex_encoding ex_relmat ex_tail_options ex_root_visited
      = decode_loop ex_encoding ex_relmat ex_tail_options
          (visit_node_forward ex_encoding ex_relmat ex_tail_options 2 ex_root_visited)"
    by (subst decode_loop.simps)
       (simp add: ex_root_visited_def ex_tail_options_def ex_defs Let_def)
  ultimately have loop: "decode_loop ex_encoding ex_relmat ex_tail_options ex_root_visited
      = Some (False, ex_final)"
    by (simp add: visit)
  have "collect_symbols (node_edges ex_final) 0 = Some []"
    by (subst collect_symbols.simps) (simp add: ex_final_def ex_defs)
  then have "collect_symbols (node_edges ex_final) 2 = Some [1]"
    by (subst collect_symbols.simps) (simp add: ex_final_def ex_defs)
  then have syms: "collect_symbols (node_edges ex_final) 3 = Some [0, 1]"
    by (subst collect_symbols.simps) (simp add: ex_final_def ex_defs)
  have valid: "\<not> get_message_length ex_relmat < get_m ex_encoding"
    "get_nb_symbols_log2 ex_relmat = get_n ex_encoding"
    by (simp_all add: ex_defs)
  have top: "node_edge_stack ex_final = (\<lparr>path_metric = -1, node_id = 3\<rparr>, 3)
       # [(\<lparr>path_metric = -2, node_id = 1\<rparr>, 1), (\<lparr>path_metric = -4, node_id = 4\<rparr>, 4)]"
    by (simp add: ex_final_def)
  from loop syms valid top show ?thesis
    by (simp add: decode_def decode_result_def back_track_def root)
qed

text \<open>The decoder that \<^verbatim>\<open>decode\<close> leaves behind is a state of the run, up to the score.\<close>

lemma decode_ends_in_run:
  assumes "get_m enc \<le> get_message_length relmat"
    and "get_nb_symbols_log2 relmat = get_n enc"
  shows "\<exists>result s X score decoded_message'.
     decode enc relmat opts st decoded_message
       = Some (Inr result, s\<lparr>codeword_score := score\<rparr>, decoded_message')
     \<and> run enc relmat opts st s X"
proof -
  from decode_loop_run[OF run_root, of enc relmat opts st]
  obtain b s X where loop:
      "decode_loop enc relmat opts (visit_root enc relmat opts (decode_start enc st)) = Some (b, s)"
    and run: "run enc relmat opts st s X"
    by auto
  from run_inv[OF run] have tinv: "tree_inv enc relmat opts s" and sinv: "stack_inv s"
    by simp_all
  have "\<exists>result score decoded_message'. decode enc relmat opts st decoded_message
       = Some (Inr result, s\<lparr>codeword_score := score\<rparr>, decoded_message')"
  proof (cases b)
    case True
    with assms loop have "decode enc relmat opts st decoded_message
        = Some (Inr False, s\<lparr>codeword_score := codeword_score s\<rparr>, decoded_message)"
      by (simp add: decode_def)
    then show ?thesis by blast
  next
    case False
    show ?thesis
    proof (cases "node_edge_stack s")
      case Nil
      with run_nonempty[OF run] have "use_metric_limit opts" by auto
      with assms loop False Nil
      have "decode enc relmat opts st decoded_message
          = Some (Inr False, s\<lparr>codeword_score := codeword_score s\<rparr>, decoded_message)"
        by (simp add: decode_def decode_result_def)
      then show ?thesis by blast
    next
      case (Cons e rest)
      obtain key node where e: "e = (key, node)" by (cases e)
      note top = stack_top_key[OF sinv Cons[unfolded e]]
      from collect_symbols_total[OF tinv top(1)] obtain syms where
        "collect_symbols (node_edges s) node = Some syms" by auto
      with assms loop False Cons e
      have "decode enc relmat opts st decoded_message
          = Some (Inr True, s\<lparr>codeword_score := path_metric key\<rparr>, rev syms)"
        by (simp add: decode_def decode_result_def back_track_def)
      then show ?thesis by blast
    qed
  qed
  with run show ?thesis by blast
qed

section \<open>The claims\<close>

text \<open>C1. The loop of \<^verbatim>\<open>decode\<close> ends for every reliability matrix that passes the two
  checks. When it ends without giving up and the stack is not empty, the top node+edge has
  reached the depth \<open>get_message_length - 1\<close>; \<^verbatim>\<open>decode\<close> returns true, the message is the
  reversed list of the input symbols met on the way from that node+edge to the root along the
  parent links, one symbol per level and as many as the message length, and the score is the
  path metric of that node+edge.\<close>

theorem decode_success:
  assumes "get_m enc \<le> get_message_length relmat"
    and "get_nb_symbols_log2 relmat = get_n enc"
  shows "\<exists>gave_up s.
     decode_loop enc relmat opts (visit_root enc relmat opts (decode_start enc st))
       = Some (gave_up, s)
     \<and> (\<forall>key node rest. \<not> gave_up \<and> node_edge_stack s = (key, node) # rest \<longrightarrow>
          (\<exists>syms. collect_symbols (node_edges s) node = Some syms
             \<and> decode enc relmat opts st decoded_message
                 = Some (Inr True,
                     s\<lparr>codeword_score := get_path_metric (node_edges s ! node)\<rparr>, rev syms)
             \<and> int (get_message_length relmat) - 1 \<le> get_depth (node_edges s ! node)
             \<and> int (length syms) = get_depth (node_edges s ! node) + 1
             \<and> (0 < get_message_length relmat \<longrightarrow> length syms = get_message_length relmat)))"
proof -
  from decode_loop_run[OF run_root, of enc relmat opts st]
  obtain gave_up s X where
    loop: "decode_loop enc relmat opts (visit_root enc relmat opts (decode_start enc st))
       = Some (gave_up, s)"
    and run: "run enc relmat opts st s X"
    and exit: "\<not> gave_up \<longrightarrow> (\<forall>key node rest. node_edge_stack s = (key, node) # rest
         \<longrightarrow> int (get_message_length relmat) - 1 \<le> get_depth (node_edges s ! node))"
    by blast
  from run_inv[OF run] have tinv: "tree_inv enc relmat opts s" and sinv: "stack_inv s"
    by simp_all
  have "\<exists>syms. collect_symbols (node_edges s) node = Some syms
             \<and> decode enc relmat opts st decoded_message
                 = Some (Inr True,
                     s\<lparr>codeword_score := get_path_metric (node_edges s ! node)\<rparr>, rev syms)
             \<and> int (get_message_length relmat) - 1 \<le> get_depth (node_edges s ! node)
             \<and> int (length syms) = get_depth (node_edges s ! node) + 1
             \<and> (0 < get_message_length relmat \<longrightarrow> length syms = get_message_length relmat)"
    if "\<not> gave_up" and stack: "node_edge_stack s = (key, node) # rest" for key node rest
  proof -
    note top = stack_top_key[OF sinv stack]
    from exit that have deep: "int (get_message_length relmat) - 1 \<le> get_depth (node_edges s ! node)"
      by blast
    from collect_symbols_total[OF tinv top(1)] obtain syms where
      syms: "collect_symbols (node_edges s) node = Some syms"
        "int (length syms) = get_depth (node_edges s ! node) + 1"
      by auto
    from run_depth_bound[OF run] top(1)
    have "get_depth (node_edges s ! node) \<le> max 0 (int (get_message_length relmat) - 1)"
      by simp
    with deep syms(2) have len: "0 < get_message_length relmat
        \<longrightarrow> length syms = get_message_length relmat"
      by auto
    from assms loop that syms top(3)
    have "decode enc relmat opts st decoded_message
         = Some (Inr True, s\<lparr>codeword_score := get_path_metric (node_edges s ! node)\<rparr>, rev syms)"
      by (simp add: decode_def decode_result_def back_track_def)
    with syms deep len show ?thesis
      by (intro exI[of _ syms]) simp
  qed
  with loop show ?thesis
    by (intro exI[of _ gave_up] exI[of _ s]) simp
qed

theorem decode_success_witness:
  "decode_loop ex_encoding ex_relmat ex_options
      (visit_root ex_encoding ex_relmat ex_options (decode_start ex_encoding ex_decoder))
     = Some (False, ex_final)
   \<and> decode ex_encoding ex_relmat ex_options ex_decoder []
     = Some (Inr True, ex_final\<lparr>codeword_score := -1\<rparr>, [1, 0])"
proof -
  have loop: "decode_loop ex_encoding ex_relmat ex_options
      (visit_root ex_encoding ex_relmat ex_options (decode_start ex_encoding ex_decoder))
        = Some (False, ex_final)"
    by (simp add: ex_visit_root ex_decode_loop ex_options_def)
  have top: "node_edge_stack ex_final = (\<lparr>path_metric = -1, node_id = 3\<rparr>, 3)
       # [(\<lparr>path_metric = -2, node_id = 1\<rparr>, 1), (\<lparr>path_metric = -4, node_id = 4\<rparr>, 4)]"
    by (simp add: ex_final_def)
  have valid: "get_m ex_encoding \<le> get_message_length ex_relmat"
    "get_nb_symbols_log2 ex_relmat = get_n ex_encoding"
    by (simp_all add: ex_defs)
  from decode_success[OF valid, of ex_options ex_decoder "[]"]
  obtain gave_up s where
    "decode_loop ex_encoding ex_relmat ex_options
      (visit_root ex_encoding ex_relmat ex_options (decode_start ex_encoding ex_decoder))
        = Some (gave_up, s)"
    and success: "\<forall>key node rest. \<not> gave_up \<and> node_edge_stack s = (key, node) # rest \<longrightarrow>
          (\<exists>syms. collect_symbols (node_edges s) node = Some syms
             \<and> decode ex_encoding ex_relmat ex_options ex_decoder []
                 = Some (Inr True,
                     s\<lparr>codeword_score := get_path_metric (node_edges s ! node)\<rparr>, rev syms)
             \<and> int (get_message_length ex_relmat) - 1 \<le> get_depth (node_edges s ! node)
             \<and> int (length syms) = get_depth (node_edges s ! node) + 1
             \<and> (0 < get_message_length ex_relmat \<longrightarrow> length syms = get_message_length ex_relmat))"
    by blast
  with loop have "gave_up = False" "s = ex_final" by simp_all
  with success[rule_format, of "\<lparr>path_metric = -1, node_id = 3\<rparr>" 3] top
  obtain syms where
    syms: "collect_symbols (node_edges ex_final) 3 = Some syms"
    and dec: "decode ex_encoding ex_relmat ex_options ex_decoder []
         = Some (Inr True, ex_final\<lparr>codeword_score := get_path_metric (node_edges ex_final ! 3)\<rparr>,
              rev syms)"
    by auto
  have "collect_symbols (node_edges ex_final) 0 = Some []"
    by (subst collect_symbols.simps) (simp add: ex_final_def ex_defs)
  then have "collect_symbols (node_edges ex_final) 2 = Some [1]"
    by (subst collect_symbols.simps) (simp add: ex_final_def ex_defs)
  then have "collect_symbols (node_edges ex_final) 3 = Some [0, 1]"
    by (subst collect_symbols.simps) (simp add: ex_final_def ex_defs)
  with syms have "syms = [0, 1]" by simp
  moreover have "get_path_metric (node_edges ex_final ! 3) = -1"
    by (simp add: ex_final_def ex_defs)
  ultimately show ?thesis using dec loop by simp
qed

text \<open>C2. At every state of a run with a non-empty stack, the node+edge at the top of the
  stack, which is the one the loop expands and the one whose key \<^verbatim>\<open>get_stack_score\<close> reads, has
  the greatest path metric among the node+edges on the stack, and among those with that
  same path metric it has the smallest creation id; \<^verbatim>\<open>get_stack_score\<close> is the maximum of
  the path metrics on the stack.\<close>

theorem stack_top_is_best:
  assumes "run enc relmat opts st0 st X" and "node_edge_stack st = (key, node) # rest"
  shows "get_stack_score st = Some (get_path_metric (node_edges st ! node))
     \<and> (\<forall>a \<in> set (map snd (node_edge_stack st)).
           get_path_metric (node_edges st ! a) \<le> get_path_metric (node_edges st ! node)
           \<and> (get_path_metric (node_edges st ! a) = get_path_metric (node_edges st ! node)
                \<longrightarrow> get_id (node_edges st ! node) \<le> get_id (node_edges st ! a)))
     \<and> get_path_metric (node_edges st ! node)
         = Max ((\<lambda>a. get_path_metric (node_edges st ! a)) ` set (map snd (node_edge_stack st)))"
proof -
  let ?pm = "\<lambda>a. get_path_metric (node_edges st ! a)"
  from run_inv[OF assms(1)] have sinv: "stack_inv st" by simp
  note top = stack_top_key[OF sinv assms(2)]
  have score: "get_stack_score st = Some (?pm node)"
    using assms(2) top(3) by (simp add: get_stack_score_def)
  have best: "?pm a \<le> ?pm node \<and> (?pm a = ?pm node \<longrightarrow> get_id (node_edges st ! node) \<le> get_id (node_edges st ! a))"
    if "a \<in> set (map snd (node_edge_stack st))" for a
  proof (cases "a = node")
    case True
    then show ?thesis by simp
  next
    case False
    with that assms(2) obtain k where e: "(k, a) \<in> set rest" by auto
    with sinv assms(2) have k: "path_metric k = ?pm a" "node_id k = get_id (node_edges st ! a)"
      by (auto simp: stack_inv_def)
    from sinv assms(2) e have "ordering_greater key k"
      by (auto simp: stack_inv_def)
    with k top(3,4) show ?thesis
      by (auto simp: ordering_greater_def split: if_splits)
  qed
  have "Max (?pm ` set (map snd (node_edge_stack st))) = ?pm node"
  proof (rule Max_eqI)
    show "finite (?pm ` set (map snd (node_edge_stack st)))" by simp
    show "y \<le> ?pm node" if "y \<in> ?pm ` set (map snd (node_edge_stack st))" for y
      using that best by auto
    show "?pm node \<in> ?pm ` set (map snd (node_edge_stack st))"
      using assms(2) by (auto intro!: image_eqI[where x = node])
  qed
  with score best show ?thesis by simp
qed

theorem stack_top_is_best_witness:
  "get_stack_score ex_tie_root_visited = Some (-1)
   \<and> get_path_metric (node_edges ex_tie_root_visited ! 2)
       = get_path_metric (node_edges ex_tie_root_visited ! 1)
   \<and> get_id (node_edges ex_tie_root_visited ! 1) \<le> get_id (node_edges ex_tie_root_visited ! 2)
   \<and> Max ((\<lambda>a. get_path_metric (node_edges ex_tie_root_visited ! a)) ` {1, 2}) = -1"
proof -
  have run: "run ex_encoding ex_tie_relmat ex_options ex_decoder ex_tie_root_visited
      {the (root_node (decode_start ex_encoding ex_decoder))}"
    using run_root[of ex_encoding ex_tie_relmat ex_options ex_decoder]
    by (simp only: ex_tie_visit_root)
  have top: "node_edge_stack ex_tie_root_visited
      = (\<lparr>path_metric = -1, node_id = 1\<rparr>, 1) # [(\<lparr>path_metric = -1, node_id = 2\<rparr>, 2)]"
    by (simp add: ex_tie_root_visited_def)
  have pm: "get_path_metric (node_edges ex_tie_root_visited ! 1) = -1"
    "get_path_metric (node_edges ex_tie_root_visited ! 2) = -1"
    by (simp_all add: ex_tie_root_visited_def ex_node_def)
  have members: "set (map snd (node_edge_stack ex_tie_root_visited)) = {1, 2}"
    by (simp add: ex_tie_root_visited_def)
  note best = stack_top_is_best[OF run top, unfolded members]
  from best pm have "get_stack_score ex_tie_root_visited = Some (-1)"
    by simp
  moreover from best pm
  have "get_id (node_edges ex_tie_root_visited ! 1) \<le> get_id (node_edges ex_tie_root_visited ! 2)"
    by simp
  moreover from best pm
  have "Max ((\<lambda>a. get_path_metric (node_edges ex_tie_root_visited ! a)) ` {1, 2}) = -1"
    by simp
  ultimately show ?thesis
    using pm by simp
qed

text \<open>C3. At every state of a run, the node+edges on the stack are exactly the allocated
  node+edges that \<^verbatim>\<open>visit_node_forward\<close> has not been called on, each once; the root has been
  visited and is not on the stack. Expanding the top of the stack takes it off the stack
  and puts every node+edge created by the expansion on it.\<close>

theorem frontier_is_unexpanded:
  assumes "run enc relmat opts st0 st X"
  shows "set (map snd (node_edge_stack st)) = {a. a < length (node_edges st)} - X
     \<and> distinct (map snd (node_edge_stack st))
     \<and> X \<subseteq> {a. a < length (node_edges st)}
     \<and> root_node st = Some 0 \<and> 0 \<in> X \<and> 0 \<notin> set (map snd (node_edge_stack st))
     \<and> (\<forall>key node rest. node_edge_stack st = (key, node) # rest \<longrightarrow>
           set (map snd (node_edge_stack (visit_node_forward enc relmat opts node st)))
             = (set (map snd (node_edge_stack st)) - {node})
                 \<union> {length (node_edges st) ..<
                      length (node_edges (visit_node_forward enc relmat opts node st))})"
proof -
  from run_inv[OF assms] have tinv: "tree_inv enc relmat opts st" and sinv: "stack_inv st"
    and X: "X \<subseteq> {..< length (node_edges st)}" "0 \<in> X"
    and fr: "set (map snd (node_edge_stack st)) = {..< length (node_edges st)} - X"
    by simp_all
  have step: "set (map snd (node_edge_stack (visit_node_forward enc relmat opts node st)))
             = (set (map snd (node_edge_stack st)) - {node})
                 \<union> {length (node_edges st) ..<
                      length (node_edges (visit_node_forward enc relmat opts node st))}"
    if top: "node_edge_stack st = (key, node) # rest" for key node rest
  proof -
    note n = stack_top_key(1,2)[OF sinv top]
    from depth_nonneg[OF tinv n] have "0 \<le> get_depth (node_edges st ! node)" .
    with visit_node_forward_inv(3)[OF tinv sinv n(1)]
    have "set (map snd (node_edge_stack (visit_node_forward enc relmat opts node st)))
        = (set (map snd (node_edge_stack st))
            \<union> {length (node_edges st) ..<
                 length (node_edges (visit_node_forward enc relmat opts node st))}) - {node}"
      by (simp add: expands_def)
    with n(1) show ?thesis by auto
  qed
  from fr have "set (map snd (node_edge_stack st)) = {a. a < length (node_edges st)} - X"
    by (simp add: lessThan_def)
  moreover from X have "X \<subseteq> {a. a < length (node_edges st)}"
    by (simp add: lessThan_def)
  moreover from fr X have "0 \<notin> set (map snd (node_edge_stack st))"
    by simp
  ultimately show ?thesis
    using tinv sinv X(2) step by (simp add: tree_inv_def stack_inv_def)
qed

theorem frontier_is_unexpanded_witness:
  "set (map snd (node_edge_stack ex_root_visited)) = {1, 2}
   \<and> distinct (map snd (node_edge_stack ex_root_visited))
   \<and> root_node ex_root_visited = Some 0
   \<and> 0 \<notin> set (map snd (node_edge_stack ex_root_visited))
   \<and> set (map snd (node_edge_stack ex_final)) = {1, 3, 4}"
proof -
  note inst = frontier_is_unexpanded[OF ex_run_root]
  have top: "node_edge_stack ex_root_visited
      = (\<lparr>path_metric = -1, node_id = 2\<rparr>, 2) # [(\<lparr>path_metric = -2, node_id = 1\<rparr>, 1)]"
    by (simp add: ex_root_visited_def)
  have len: "length (node_edges ex_root_visited) = 3" "length (node_edges ex_final) = 5"
    by (simp_all add: ex_root_visited_def ex_final_def)
  have visit: "visit_node_forward ex_encoding ex_relmat ex_options 2 ex_root_visited = ex_final"
    by (simp add: ex_visit_top ex_options_def)
  from inst have "set (map snd (node_edge_stack ex_root_visited)) = {a. a < 3} - {0}"
    by (simp only: len)
  moreover have "{a. a < 3} - {0} = {1, 2::nat}" by auto
  ultimately have fr: "set (map snd (node_edge_stack ex_root_visited)) = {1, 2}" by simp
  from inst have "\<forall>key node rest. node_edge_stack ex_root_visited = (key, node) # rest \<longrightarrow>
           set (map snd (node_edge_stack
                 (visit_node_forward ex_encoding ex_relmat ex_options node ex_root_visited)))
             = (set (map snd (node_edge_stack ex_root_visited)) - {node})
                 \<union> {length (node_edges ex_root_visited) ..<
                      length (node_edges
                        (visit_node_forward ex_encoding ex_relmat ex_options node ex_root_visited))}"
    by (elim conjE)
  from this[rule_format, OF top]
  have "set (map snd (node_edge_stack ex_final))
      = (set (map snd (node_edge_stack ex_root_visited)) - {2}) \<union> {3 ..< 5}"
    by (simp only: visit len)
  moreover have "({1, 2} - {2}) \<union> {3 ..< 5} = {1, 3, 4::nat}" by auto
  ultimately have fr': "set (map snd (node_edge_stack ex_final)) = {1, 3, 4}"
    by (simp only: fr)
  from inst fr fr' show ?thesis by simp
qed

text \<open>C4. The expansion of a node+edge, be it the root's at the start of \<^verbatim>\<open>decode\<close> or that of
  the top of the stack in a run: the node+edges it creates are, in scan order, exactly the
  candidates whose forward path metric (the parent's path metric plus the edge metric)
  passes the test of the metric limit (none in use, or strictly greater). They get the next
  creation ids from the node count on, have the expanded node+edge as parent, sit in the
  parent's slot of their input symbol and are on the stack; the node count grows by their
  number, so that a pruned candidate is neither created nor counted.\<close>

theorem expansion_materializes:
  assumes "(st = decode_start enc st0 \<and> node = 0)
     \<or> (\<exists>X key rest. run enc relmat opts st0 st X \<and> node_edge_stack st = (key, node) # rest)"
  shows "let parent = node_edges st ! node;
             forward_depth = get_depth parent + 1;
             regs = (if get_depth parent \<ge> 0 then get_registers parent else encoding_registers st);
             kept = passing_candidates enc relmat opts (get_path_metric parent) forward_depth regs
                      [0 ..< end_symbol enc relmat opts forward_depth];
             st' = visit_node_forward enc relmat opts node st;
             first = length (node_edges st)
         in map get_in_symbol (drop first (node_edges st')) = kept
          \<and> map get_id (drop first (node_edges st')) = [node_count st ..< node_count st + length kept]
          \<and> node_count st' = node_count st + length kept
          \<and> (\<forall>c. first \<le> c \<and> c < length (node_edges st') \<longrightarrow>
                get_incoming_node_edge (node_edges st' ! c) = Some node
              \<and> get_outgoing_node_edges (node_edges st' ! node)
                   ! get_in_symbol (node_edges st' ! c) = Some c
              \<and> c \<in> set (map snd (node_edge_stack st')))"
proof -
  define st' where "st' = visit_node_forward enc relmat opts node st"
  define kept where "kept = passing_candidates enc relmat opts
      (get_path_metric (node_edges st ! node)) (get_depth (node_edges st ! node) + 1)
      (if get_depth (node_edges st ! node) \<ge> 0 then get_registers (node_edges st ! node)
       else encoding_registers st)
      [0 ..< end_symbol enc relmat opts (get_depth (node_edges st ! node) + 1)]"
  let ?l = "length (node_edges st)" and ?l' = "length (node_edges st')"
  from assms have inv: "tree_inv enc relmat opts st \<and> stack_inv st \<and> node < ?l"
  proof
    assume "st = decode_start enc st0 \<and> node = 0"
    then show ?thesis by (simp add: decode_start_inv decode_start_fields)
  next
    assume "\<exists>X key rest. run enc relmat opts st0 st X \<and> node_edge_stack st = (key, node) # rest"
    then obtain X key rest where "run enc relmat opts st0 st X"
      "node_edge_stack st = (key, node) # rest" by blast
    with run_inv[of enc relmat opts st0 st X] show ?thesis
      by (simp add: stack_inv_def)
  qed
  then have tinv: "tree_inv enc relmat opts st" and sinv: "stack_inv st" and node: "node < ?l"
    by simp_all
  note vinv = visit_node_forward_inv[OF tinv sinv node, folded st'_def]
  note scan = visit_node_forward_scan[OF tinv sinv node, folded st'_def kept_def]
  from vinv(3) have len: "?l \<le> ?l'"
    and parent: "\<And>c. ?l \<le> c \<Longrightarrow> c < ?l' \<Longrightarrow> get_incoming_node_edge (node_edges st' ! c) = Some node"
    and stack: "set (map snd (node_edge_stack st')) =
          (set (map snd (node_edge_stack st)) \<union> {?l ..< ?l'})
            - (if get_depth (node_edges st ! node) \<ge> 0 then {node} else {})"
    by (simp_all add: expands_def)
  from scan(1) have "length kept = length (drop ?l (node_edges st'))"
    by (metis length_map)
  with len have l': "?l' = ?l + length kept" by simp
  from tinv vinv(1) have cnt: "node_count st = ?l" "node_count st' = ?l'"
    and ids: "\<And>a. a < ?l' \<Longrightarrow> get_id (node_edges st' ! a) = a"
    by (simp_all add: tree_inv_def)
  have idlist: "map get_id (drop ?l (node_edges st')) = [?l ..< ?l + length kept]"
  proof (rule nth_equalityI)
    show "length (map get_id (drop ?l (node_edges st'))) = length [?l ..< ?l + length kept]"
      using l' by simp
    fix i assume "i < length (map get_id (drop ?l (node_edges st')))"
    then have i: "?l + i < ?l'" by simp
    with ids[OF i] l' show "map get_id (drop ?l (node_edges st')) ! i = [?l ..< ?l + length kept] ! i"
      by simp
  qed
  have onstack: "c \<in> set (map snd (node_edge_stack st'))" if "?l \<le> c" "c < ?l'" for c
    using that node unfolding stack by auto
  from scan idlist cnt l' parent onstack show ?thesis
    unfolding Let_def st'_def[symmetric] kept_def[symmetric] by simp
qed

theorem expansion_materializes_witness:
  "passing_candidates ex_encoding ex_relmat ex_strict_options 0 0 0 [0, 1] = [1]
   \<and> map get_in_symbol (drop 1 (node_edges ex_strict_root_visited)) = [1]
   \<and> map get_id (drop 1 (node_edges ex_strict_root_visited)) = [1]
   \<and> node_count ex_strict_root_visited = 2
   \<and> get_incoming_node_edge (node_edges ex_strict_root_visited ! 1) = Some 0
   \<and> get_outgoing_node_edges (node_edges ex_strict_root_visited ! 0) ! 1 = Some 1
   \<and> 1 \<in> set (map snd (node_edge_stack ex_strict_root_visited))
   \<and> map get_in_symbol (drop 3 (node_edges ex_final)) = [0, 1]
   \<and> map get_id (drop 3 (node_edges ex_final)) = [3, 4]
   \<and> node_count ex_final = 5"
proof -
  let ?s = "decode_start ex_encoding ex_decoder"
  have vals: "length (node_edges ?s) = 1" "node_count ?s = 1"
    "get_depth (node_edges ?s ! 0) = -1" "get_path_metric (node_edges ?s ! 0) = 0"
    "encoding_registers ?s = 0"
    by (simp_all add: decode_start_def reset_def init_root_def ex_defs)
  have scan: "[0 ..< end_symbol ex_encoding ex_relmat ex_strict_options 0] = [0, 1]"
    by (simp add: end_symbol_def ex_strict_options_def ex_defs upt_rec)
  have kept: "passing_candidates ex_encoding ex_relmat ex_strict_options 0 0 0 [0, 1] = [1]"
    by (simp add: ex_strict_options_def ex_defs log2_values)
  have kept': "passing_candidates ex_encoding ex_relmat ex_strict_options 0 0 0 [0, Suc 0] = [Suc 0]"
    using kept by simp
  have len: "length (node_edges ex_strict_root_visited) = 2"
    and sym: "get_in_symbol (node_edges ex_strict_root_visited ! 1) = 1"
    by (simp_all add: ex_strict_root_visited_def ex_node_def)
  from expansion_materializes[of ?s ex_encoding ex_decoder 0 ex_relmat ex_strict_options]
  have inst: "map get_in_symbol (drop 1 (node_edges ex_strict_root_visited)) = [1]
     \<and> map get_id (drop 1 (node_edges ex_strict_root_visited)) = [1 ..< 1 + length [1::nat]]
     \<and> node_count ex_strict_root_visited = 1 + length [1::nat]
     \<and> (\<forall>c. 1 \<le> c \<and> c < length (node_edges ex_strict_root_visited) \<longrightarrow>
            get_incoming_node_edge (node_edges ex_strict_root_visited ! c) = Some 0
          \<and> get_outgoing_node_edges (node_edges ex_strict_root_visited ! 0)
               ! get_in_symbol (node_edges ex_strict_root_visited ! c) = Some c
          \<and> c \<in> set (map snd (node_edge_stack ex_strict_root_visited)))"
    unfolding Let_def vals ex_strict_visit_root
    by (simp add: scan kept' del: passing_candidates.simps)
  then have "get_incoming_node_edge (node_edges ex_strict_root_visited ! 1) = Some 0
          \<and> get_outgoing_node_edges (node_edges ex_strict_root_visited ! 0)
               ! get_in_symbol (node_edges ex_strict_root_visited ! 1) = Some 1
          \<and> 1 \<in> set (map snd (node_edge_stack ex_strict_root_visited))"
    using len by simp
  with inst kept sym have first: "passing_candidates ex_encoding ex_relmat ex_strict_options 0 0 0 [0, 1] = [1]
   \<and> map get_in_symbol (drop 1 (node_edges ex_strict_root_visited)) = [1]
   \<and> map get_id (drop 1 (node_edges ex_strict_root_visited)) = [1]
   \<and> node_count ex_strict_root_visited = 2
   \<and> get_incoming_node_edge (node_edges ex_strict_root_visited ! 1) = Some 0
   \<and> get_outgoing_node_edges (node_edges ex_strict_root_visited ! 0) ! 1 = Some 1
   \<and> 1 \<in> set (map snd (node_edge_stack ex_strict_root_visited))"
    by (simp add: upt_rec)
  have top: "node_edge_stack ex_root_visited
      = (\<lparr>path_metric = -1, node_id = 2\<rparr>, 2) # [(\<lparr>path_metric = -2, node_id = 1\<rparr>, 1)]"
    by (simp add: ex_root_visited_def)
  with ex_run_root have loop_case: "(ex_root_visited = decode_start ex_encoding ex_decoder \<and> (2::nat) = 0)
     \<or> (\<exists>X key rest. run ex_encoding ex_relmat ex_options ex_decoder ex_root_visited X
           \<and> node_edge_stack ex_root_visited = (key, 2) # rest)"
    by blast
  have visit: "visit_node_forward ex_encoding ex_relmat ex_options 2 ex_root_visited = ex_final"
    by (simp add: ex_visit_top ex_options_def)
  have vals2: "length (node_edges ex_root_visited) = 3" "node_count ex_root_visited = 3"
    "length (node_edges ex_final) = 5"
    by (simp_all add: ex_root_visited_def ex_final_def)
  from expansion_materializes[OF loop_case]
  have "map get_id (drop 3 (node_edges ex_final))
      = [3 ..< 3 + length (map get_in_symbol (drop 3 (node_edges ex_final)))]
    \<and> node_count ex_final = 3 + length (map get_in_symbol (drop 3 (node_edges ex_final)))"
    unfolding Let_def visit vals2 by metis
  moreover have "map get_in_symbol (drop 3 (node_edges ex_final)) = [0, 1]"
    by (simp add: ex_final_def ex_node_def)
  ultimately have second: "map get_in_symbol (drop 3 (node_edges ex_final)) = [0, 1]
   \<and> map get_id (drop 3 (node_edges ex_final)) = [3, 4]
   \<and> node_count ex_final = 5"
    by (simp add: upt_rec)
  from first second show ?thesis by blast
qed

text \<open>C5, as stated, fails. With tail zeros on, a message of length 2 and \<open>get_m = 1\<close>, the
  expansion for position 1, which is \<open>L - m\<close>, scans both input symbols: the node+edge 4 at
  depth 1 has input symbol 1. With \<open>get_m = 2\<close> the same holds at position 0, and the decoded
  message starts with 1.\<close>

theorem zero_tail_counterexample:
  "tail_zeros ex_tail_options
   \<and> decode ex_encoding ex_relmat ex_tail_options ex_decoder []
       = Some (Inr True, ex_final\<lparr>codeword_score := -1\<rparr>, [1, 0])
   \<and> int (get_message_length ex_relmat) - int (get_m ex_encoding)
       \<le> get_depth (node_edges ex_final ! 4)
   \<and> get_in_symbol (node_edges ex_final ! 4) = 1
   \<and> get_incoming_node_edge (node_edges ex_final ! 4) = Some 2
   \<and> decode ex_tail_encoding ex_relmat ex_tail_options ex_decoder []
       = Some (Inr True, ex_tail_final\<lparr>codeword_score := -1\<rparr>, [1, 0])
   \<and> int (get_message_length ex_relmat) - int (get_m ex_tail_encoding)
       \<le> get_depth (node_edges ex_tail_final ! 2)
   \<and> get_in_symbol (node_edges ex_tail_final ! 2) = 1"
  by (simp add: ex_tail_decode ex_tail_plain_decode)
     (simp add: ex_final_def ex_tail_final_def ex_tail_encoding_def ex_tail_options_def ex_defs)

text \<open>C5, amended. The code restricts the scan at the positions strictly greater than
  \<open>L - m\<close>: with tail zeros on, at every state of a run, every node+edge at a depth greater than
  \<open>get_message_length - get_m\<close> has input symbol 0, and the scan for such a depth is over the
  symbol 0 alone.\<close>

theorem zero_tail_strict:
  assumes "run enc relmat opts st0 st X" and "tail_zeros opts"
    and "get_m enc \<le> get_message_length relmat"
  shows "(\<forall>a<length (node_edges st). 0 < a \<longrightarrow>
            int (get_message_length relmat) - int (get_m enc) < get_depth (node_edges st ! a)
            \<longrightarrow> get_in_symbol (node_edges st ! a) = 0)
     \<and> (\<forall>forward_depth. int (get_message_length relmat) - int (get_m enc) < forward_depth
            \<longrightarrow> [0 ..< end_symbol enc relmat opts forward_depth] = [0])"
proof -
  from run_inv[OF assms(1)] have tinv: "tree_inv enc relmat opts st" by simp
  have tail: "end_symbol enc relmat opts fd = 1"
    if "int (get_message_length relmat) - int (get_m enc) < fd" for fd
    using that assms(2) by (simp add: end_symbol_def)
  have "get_in_symbol (node_edges st ! a) = 0"
    if "a < length (node_edges st)" "0 < a"
      "int (get_message_length relmat) - int (get_m enc) < get_depth (node_edges st ! a)" for a
  proof -
    from tinv that(1,2) have "child_ok enc relmat opts (node_edges st) a"
      by (simp add: tree_inv_def)
    then have "get_in_symbol (node_edges st ! a)
        < end_symbol enc relmat opts (get_depth (node_edges st ! a))"
      by (simp add: child_ok_def)
    with tail[OF that(3)] show ?thesis by simp
  qed
  with tail show ?thesis by simp
qed

theorem zero_tail_strict_witness:
  "length (node_edges ex_tail_final) = 4
   \<and> int (get_message_length ex_relmat) - int (get_m ex_tail_encoding)
       < get_depth (node_edges ex_tail_final ! 3)
   \<and> get_in_symbol (node_edges ex_tail_final ! 3) = 0
   \<and> [0 ..< end_symbol ex_tail_encoding ex_relmat ex_tail_options 1] = [0]"
proof -
  have pre: "tail_zeros ex_tail_options" "get_m ex_tail_encoding \<le> get_message_length ex_relmat"
    by (simp_all add: ex_tail_options_def ex_tail_encoding_def ex_defs)
  have vals: "length (node_edges ex_tail_final) = 4"
    "int (get_message_length ex_relmat) - int (get_m ex_tail_encoding) = 0"
    "get_depth (node_edges ex_tail_final ! 3) = 1"
    by (simp_all add: ex_tail_final_def ex_tail_encoding_def ex_defs)
  note inst = zero_tail_strict[OF ex_tail_run_final pre]
  from inst vals have "get_in_symbol (node_edges ex_tail_final ! 3) = 0"
    by simp
  moreover from inst vals have "[0 ..< end_symbol ex_tail_encoding ex_relmat ex_tail_options 1] = [0]"
    by simp
  ultimately show ?thesis using vals by simp
qed

text \<open>C6, as stated, fails. With the node limit 1 and one input bit, the root's expansion
  brings the node count to 3, over the limit, and the run goes on: the loop expands the
  node+edge 2 and only then gives up, with 5 node+edges, more than \<open>1 + 2\<close>.\<close>

theorem node_budget_counterexample:
  "use_node_limit ex_limit_options
   \<and> decode ex_encoding ex_relmat ex_limit_options ex_decoder [] = Some (Inr False, ex_final, [])
   \<and> node_limit ex_limit_options + 2 ^ get_k ex_encoding < node_count ex_final
   \<and> visit_root ex_encoding ex_relmat ex_limit_options (decode_start ex_encoding ex_decoder)
       = ex_root_visited
   \<and> node_limit ex_limit_options < node_count ex_root_visited
   \<and> visit_node_forward ex_encoding ex_relmat ex_limit_options 2 ex_root_visited = ex_final"
proof -
  have opts: "\<not> use_metric_limit ex_limit_options" "\<not> tail_zeros ex_limit_options"
    "edge_bias ex_limit_options = 0" "use_node_limit ex_limit_options"
    "node_limit ex_limit_options = 1"
    by (simp_all add: ex_limit_options_def ex_options_def)
  have "node_count ex_final = 5" "node_count ex_root_visited = 3" "get_k ex_encoding = 1"
    by (simp_all add: ex_final_def ex_root_visited_def ex_encoding_def)
  with opts show ?thesis
    by (simp add: ex_limit_decode ex_visit_root ex_visit_top)
qed

text \<open>C6, amended. The node limit is tested after each expansion made by the loop, not after
  the root's expansion. With a node limit \<open>B\<close> in use, \<^verbatim>\<open>decode\<close> returns; the loop gives up at once
  when an expansion it made leaves the node count above \<open>B\<close>; the node count at the end is at
  most \<open>max B (1 + 2^k) + 2^k\<close>, and a run that ends above \<open>max B (1 + 2^k)\<close> returns false and
  leaves the caller's vector untouched.\<close>

theorem node_budget_bound:
  assumes "get_m enc \<le> get_message_length relmat"
    and "get_nb_symbols_log2 relmat = get_n enc"
    and "use_node_limit opts"
  shows "\<exists>out st' decoded_message'.
     decode enc relmat opts st decoded_message = Some (out, st', decoded_message')
     \<and> node_count st' \<le> max (node_limit opts) (1 + 2 ^ get_k enc) + 2 ^ get_k enc
     \<and> (max (node_limit opts) (1 + 2 ^ get_k enc) < node_count st'
          \<longrightarrow> out = Inr False \<and> decoded_message' = decoded_message)
     \<and> (\<forall>s key node rest. node_edge_stack s = (key, node) # rest
          \<and> get_depth (node_edges s ! node) < int (get_message_length relmat) - 1
          \<and> node_limit opts < node_count (visit_node_forward enc relmat opts node s)
          \<longrightarrow> decode_loop enc relmat opts s
                = Some (True, visit_node_forward enc relmat opts node s))"
proof -
  define M where "M = max (node_limit opts) (1 + 2 ^ get_k enc)"
  let ?P = "\<lambda>s::'a decoder. node_count s \<le> M"
  let ?start = "visit_root enc relmat opts (decode_start enc st)"
  have "node_count ?start \<le> 1 + 2 ^ get_k enc"
    using visit_node_forward_length(2)[of enc relmat opts 0 "decode_start enc st"]
    by (simp add: visit_root_def decode_start_fields)
  then have P0: "?P ?start" by (simp add: M_def)
  have step: "?P (visit_node_forward enc relmat opts node s)"
    if "\<not> (use_node_limit opts
             \<and> node_count (visit_node_forward enc relmat opts node s) > node_limit opts)"
    for s node
    using that assms(3) by (simp add: M_def)
  from decode_loop_rule[of enc relmat opts st ?start _ ?P, OF run_root P0 step]
  obtain b s where loop: "decode_loop enc relmat opts ?start = Some (b, s)"
    and run: "\<exists>X'. run enc relmat opts st s X'"
    and aborted: "b \<longrightarrow> (\<exists>s0 Y key node rest. run enc relmat opts st s0 Y \<and> ?P s0
                   \<and> node_edge_stack s0 = (key, node) # rest
                   \<and> s = visit_node_forward enc relmat opts node s0)"
    and finished: "\<not> b \<longrightarrow> ?P s"
    by blast
  have immediately: "\<forall>s key node rest. node_edge_stack s = (key, node) # rest
          \<and> get_depth (node_edges s ! node) < int (get_message_length relmat) - 1
          \<and> node_limit opts < node_count (visit_node_forward enc relmat opts node s)
          \<longrightarrow> decode_loop enc relmat opts s
                = Some (True, visit_node_forward enc relmat opts node s)"
  proof (intro allI impI)
    fix s key node rest
    assume "node_edge_stack s = (key, node) # rest
          \<and> get_depth (node_edges s ! node) < int (get_message_length relmat) - 1
          \<and> node_limit opts < node_count (visit_node_forward enc relmat opts node s)"
    with assms(3) show "decode_loop enc relmat opts s
                = Some (True, visit_node_forward enc relmat opts node s)"
      by (subst decode_loop.simps) (simp add: Let_def)
  qed
  show ?thesis
  proof (cases b)
    case True
    with aborted obtain s0 node where "node_count s0 \<le> M"
      "s = visit_node_forward enc relmat opts node s0"
      by blast
    with visit_node_forward_length(2)[of enc relmat opts node s0]
    have "node_count s \<le> M + 2 ^ get_k enc" by simp
    moreover from True assms loop
    have "decode enc relmat opts st decoded_message = Some (Inr False, s, decoded_message)"
      by (simp add: decode_def)
    ultimately show ?thesis
      using immediately unfolding M_def by blast
  next
    case False
    with finished have le: "node_count s \<le> M" by simp
    from run obtain X' where run': "run enc relmat opts st s X'" by blast
    from run_inv[OF run'] have tinv: "tree_inv enc relmat opts s" and sinv: "stack_inv s"
      by simp_all
    have "\<exists>out x decoded_message'. decode enc relmat opts st decoded_message
        = Some (out, s\<lparr>codeword_score := x\<rparr>, decoded_message')"
    proof (cases "node_edge_stack s")
      case Nil
      with run_nonempty[OF run'] have "use_metric_limit opts" by auto
      with assms loop False Nil
      have "decode enc relmat opts st decoded_message
          = Some (Inr False, s\<lparr>codeword_score := codeword_score s\<rparr>, decoded_message)"
        by (simp add: decode_def decode_result_def)
      then show ?thesis by blast
    next
      case (Cons e rest)
      obtain key node where e: "e = (key, node)" by (cases e)
      note top = stack_top_key[OF sinv Cons[unfolded e]]
      from collect_symbols_total[OF tinv top(1)] obtain syms where
        "collect_symbols (node_edges s) node = Some syms" by auto
      with assms loop False Cons e
      have "decode enc relmat opts st decoded_message
          = Some (Inr True, s\<lparr>codeword_score := path_metric key\<rparr>, rev syms)"
        by (simp add: decode_def decode_result_def back_track_def)
      then show ?thesis by blast
    qed
    then obtain out x decoded_message' where
      dec: "decode enc relmat opts st decoded_message
        = Some (out, s\<lparr>codeword_score := x\<rparr>, decoded_message')"
      by blast
    from le have "node_count (s\<lparr>codeword_score := x\<rparr>) \<le> M" by simp
    then have "node_count (s\<lparr>codeword_score := x\<rparr>) \<le> M + 2 ^ get_k enc"
      "\<not> M < node_count (s\<lparr>codeword_score := x\<rparr>)"
      by simp_all
    with dec immediately show ?thesis
      unfolding M_def by blast
  qed
qed

theorem node_budget_bound_witness:
  "decode ex_encoding ex_relmat ex_limit_options ex_decoder [] = Some (Inr False, ex_final, [])
   \<and> node_count ex_final = 5
   \<and> max (node_limit ex_limit_options) (1 + 2 ^ get_k ex_encoding) = 3
   \<and> decode_loop ex_encoding ex_relmat ex_limit_options ex_root_visited = Some (True, ex_final)"
proof -
  have pre: "get_m ex_encoding \<le> get_message_length ex_relmat"
    "get_nb_symbols_log2 ex_relmat = get_n ex_encoding" "use_node_limit ex_limit_options"
    by (simp_all add: ex_limit_options_def ex_defs)
  have opts: "\<not> use_metric_limit ex_limit_options" "\<not> tail_zeros ex_limit_options"
    "edge_bias ex_limit_options = 0"
    by (simp_all add: ex_limit_options_def ex_options_def)
  have vals: "node_count ex_final = 5"
    "max (node_limit ex_limit_options) (1 + 2 ^ get_k ex_encoding) = 3"
    by (simp_all add: ex_final_def ex_limit_options_def ex_defs)
  have top: "node_edge_stack ex_root_visited
      = (\<lparr>path_metric = -1, node_id = 2\<rparr>, 2) # [(\<lparr>path_metric = -2, node_id = 1\<rparr>, 1)]"
    by (simp add: ex_root_visited_def)
  have d: "get_depth (node_edges ex_root_visited ! 2) < int (get_message_length ex_relmat) - 1"
    by (simp add: ex_root_visited_def ex_defs)
  have visit: "visit_node_forward ex_encoding ex_relmat ex_limit_options 2 ex_root_visited = ex_final"
    using opts by (rule ex_visit_top)
  have over: "node_limit ex_limit_options
      < node_count (visit_node_forward ex_encoding ex_relmat ex_limit_options 2 ex_root_visited)"
    by (simp add: visit vals(1)) (simp add: ex_limit_options_def)
  from node_budget_bound[OF pre, of ex_decoder "[]"]
  obtain out st' decoded_message' where
    dec: "decode ex_encoding ex_relmat ex_limit_options ex_decoder []
        = Some (out, st', decoded_message')"
    and false: "max (node_limit ex_limit_options) (1 + 2 ^ get_k ex_encoding) < node_count st'
          \<longrightarrow> out = Inr False \<and> decoded_message' = []"
    and stop: "\<forall>s key node rest. node_edge_stack s = (key, node) # rest
          \<and> get_depth (node_edges s ! node) < int (get_message_length ex_relmat) - 1
          \<and> node_limit ex_limit_options
               < node_count (visit_node_forward ex_encoding ex_relmat ex_limit_options node s)
          \<longrightarrow> decode_loop ex_encoding ex_relmat ex_limit_options s
                = Some (True, visit_node_forward ex_encoding ex_relmat ex_limit_options node s)"
    by blast
  from stop top d over
  have loop: "decode_loop ex_encoding ex_relmat ex_limit_options ex_root_visited
      = Some (True, visit_node_forward ex_encoding ex_relmat ex_limit_options 2 ex_root_visited)"
    by blast
  from dec have st': "st' = ex_final" by (simp add: ex_limit_decode)
  from false[unfolded st' vals] have "out = Inr False" "decoded_message' = []" by simp_all
  with dec st' loop vals show ?thesis by (simp add: visit)
qed

text \<open>C7. \<^verbatim>\<open>decode\<close> throws its exception exactly when the message length of the reliability
  matrix is smaller than \<^verbatim>\<open>get_m()\<close> or its symbol width differs from \<^verbatim>\<open>get_n()\<close>; the
  exception leaves the decoder and the caller's vector as they were, so that no node+edge
  is created and the node count keeps its value.\<close>

theorem decode_configuration_error:
  "(get_message_length relmat < get_m enc \<or> get_nb_symbols_log2 relmat \<noteq> get_n enc
      \<longrightarrow> (\<exists>text. decode enc relmat opts st decoded_message
                    = Some (Inl (CCSoft_Exception text), st, decoded_message)))
   \<and> (\<not> (get_message_length relmat < get_m enc \<or> get_nb_symbols_log2 relmat \<noteq> get_n enc)
      \<longrightarrow> (\<forall>text st' decoded_message'. decode enc relmat opts st decoded_message
                    \<noteq> Some (Inl (CCSoft_Exception text), st', decoded_message')))"
  by (auto simp: decode_def decode_result_def split: option.splits bool.splits list.splits
      prod.splits if_splits Option.bind_splits)

theorem decode_configuration_error_witness:
  "(\<exists>text. decode ex_encoding (ex_relmat\<lparr>get_message_length := 0\<rparr>) ex_options ex_decoder []
       = Some (Inl (CCSoft_Exception text), ex_decoder, []))
   \<and> node_count ex_decoder = 0
   \<and> (\<exists>text. decode ex_encoding (ex_relmat\<lparr>get_nb_symbols_log2 := 2\<rparr>) ex_options ex_decoder []
       = Some (Inl (CCSoft_Exception text), ex_decoder, []))
   \<and> (\<forall>text st' decoded_message'. decode ex_encoding ex_relmat ex_options ex_decoder []
       \<noteq> Some (Inl (CCSoft_Exception text), st', decoded_message'))"
  using decode_configuration_error [of "ex_relmat\<lparr>get_message_length := 0\<rparr>" ex_encoding
      ex_options ex_decoder "[]"]
    decode_configuration_error [of "ex_relmat\<lparr>get_nb_symbols_log2 := 2\<rparr>" ex_encoding
      ex_options ex_decoder "[]"]
    decode_configuration_error [of ex_relmat ex_encoding ex_options ex_decoder "[]"]
  by (simp add: ex_relmat_def ex_encoding_def ex_decoder_def)

text \<open>C8. \<^verbatim>\<open>decode\<close> returns for every reliability matrix that passes the two checks. When
  the stack is empty at the end, a metric limit is in use, the result is the boolean false
  and the caller's vector is untouched. Without a metric limit the stack is never empty
  during a run, and the result is a boolean.\<close>

theorem no_viable_path:
  assumes "get_m enc \<le> get_message_length relmat"
    and "get_nb_symbols_log2 relmat = get_n enc"
  shows "\<exists>out st' decoded_message'.
     decode enc relmat opts st decoded_message = Some (out, st', decoded_message')
     \<and> (node_edge_stack st' = [] \<longrightarrow>
          use_metric_limit opts \<and> out = Inr False \<and> decoded_message' = decoded_message)
     \<and> (\<not> use_metric_limit opts \<longrightarrow>
          node_edge_stack st' \<noteq> [] \<and> (\<exists>result. out = Inr result))
     \<and> (\<forall>s Y. run enc relmat opts st s Y \<and> \<not> use_metric_limit opts
          \<longrightarrow> node_edge_stack s \<noteq> [])"
proof -
  from decode_loop_run[OF run_root, of enc relmat opts st]
  obtain b s X where loop:
      "decode_loop enc relmat opts (visit_root enc relmat opts (decode_start enc st)) = Some (b, s)"
    and run: "run enc relmat opts st s X"
    by auto
  from run_inv[OF run] have tinv: "tree_inv enc relmat opts s" and sinv: "stack_inv s"
    by simp_all
  have ne: "node_edge_stack s \<noteq> []" if "\<not> use_metric_limit opts"
    using run that by (rule run_nonempty)
  have all: "\<forall>s Y. run enc relmat opts st s Y \<and> \<not> use_metric_limit opts
          \<longrightarrow> node_edge_stack s \<noteq> []"
    using run_nonempty by blast
  show ?thesis
  proof (cases b)
    case True
    with assms loop have "decode enc relmat opts st decoded_message = Some (Inr False, s, decoded_message)"
      by (simp add: decode_def)
    with ne all show ?thesis by auto
  next
    case False
    show ?thesis
    proof (cases "node_edge_stack s")
      case Nil
      with ne have "use_metric_limit opts" by auto
      with assms loop False Nil
      have "decode enc relmat opts st decoded_message = Some (Inr False, s, decoded_message)"
        by (simp add: decode_def decode_result_def)
      with Nil ne all show ?thesis by auto
    next
      case (Cons e rest)
      obtain key node where e: "e = (key, node)" by (cases e)
      note top = stack_top_key[OF sinv Cons[unfolded e]]
      from collect_symbols_total[OF tinv top(1)] obtain syms where
        "collect_symbols (node_edges s) node = Some syms" by auto
      with assms loop False Cons e
      have "decode enc relmat opts st decoded_message
          = Some (Inr True, s\<lparr>codeword_score := path_metric key\<rparr>, rev syms)"
        by (simp add: decode_def decode_result_def back_track_def)
      with Cons all show ?thesis by auto
    qed
  qed
qed

theorem no_viable_path_witness:
  "decode ex_encoding ex_relmat ex_pruning_options ex_decoder [] = Some (Inr False, ex_pruned, [])
   \<and> node_edge_stack ex_pruned = [] \<and> use_metric_limit ex_pruning_options
   \<and> \<not> use_metric_limit ex_options \<and> node_edge_stack ex_final \<noteq> []"
proof -
  have valid: "get_m ex_encoding \<le> get_message_length ex_relmat"
    "get_nb_symbols_log2 ex_relmat = get_n ex_encoding"
    by (simp_all add: ex_defs)
  from no_viable_path[OF valid, of ex_pruning_options ex_decoder "[]"]
  obtain out st' decoded_message' where
    dec: "decode ex_encoding ex_relmat ex_pruning_options ex_decoder []
        = Some (out, st', decoded_message')"
    and empty: "node_edge_stack st' = [] \<longrightarrow>
          use_metric_limit ex_pruning_options \<and> out = Inr False \<and> decoded_message' = []"
    by blast
  from dec have st': "st' = ex_pruned" by (simp add: ex_pruned_decode)
  have stack: "node_edge_stack ex_pruned = []" by (simp add: ex_pruned_def)
  from empty st' stack have "use_metric_limit ex_pruning_options" "out = Inr False"
    "decoded_message' = []"
    by simp_all
  with dec st' have first: "decode ex_encoding ex_relmat ex_pruning_options ex_decoder []
      = Some (Inr False, ex_pruned, [])"
    by simp
  have nolimit: "\<not> use_metric_limit ex_options" by (simp add: ex_options_def)
  from no_viable_path[OF valid, of ex_options ex_decoder "[]"]
  have "\<forall>s Y. run ex_encoding ex_relmat ex_options ex_decoder s Y \<and> \<not> use_metric_limit ex_options
          \<longrightarrow> node_edge_stack s \<noteq> []"
    by blast
  with ex_run_final nolimit have "node_edge_stack ex_final \<noteq> []" by blast
  with first stack \<open>use_metric_limit ex_pruning_options\<close> nolimit show ?thesis by simp
qed

text \<open>C9. At every state of a run, the root has path metric 0, and every other node+edge has
  a parent whose path metric plus the node's own edge metric is the node's path metric; the
  edge metric is \<^verbatim>\<open>log2\<close> of the reliability looked up for an encoder output at the node's depth,
  minus the edge bias.\<close>

theorem path_metric_accumulates:
  assumes "run enc relmat opts st0 st X"
  shows "root_node st = Some 0 \<and> get_path_metric (node_edges st ! 0) = 0
     \<and> (\<forall>a<length (node_edges st). 0 < a \<longrightarrow>
          (\<exists>p<a. get_incoming_node_edge (node_edges st ! a) = Some p
             \<and> get_path_metric (node_edges st ! a)
                 = get_path_metric (node_edges st ! p) + get_edge_metric (node_edges st ! a))
          \<and> (\<exists>regs. get_edge_metric (node_edges st ! a)
                = log2 (relmat_at relmat
                     (fst (encode enc regs (get_in_symbol (node_edges st ! a))
                        (get_in_symbol (node_edges st ! a) > 0)))
                     (nat (get_depth (node_edges st ! a)))) - edge_bias opts))"
proof -
  from run_inv[OF assms] have tinv: "tree_inv enc relmat opts st" by simp
  have "(\<exists>p<a. get_incoming_node_edge (node_edges st ! a) = Some p
             \<and> get_path_metric (node_edges st ! a)
                 = get_path_metric (node_edges st ! p) + get_edge_metric (node_edges st ! a))
          \<and> (\<exists>regs. get_edge_metric (node_edges st ! a)
                = log2 (relmat_at relmat
                     (fst (encode enc regs (get_in_symbol (node_edges st ! a))
                        (get_in_symbol (node_edges st ! a) > 0)))
                     (nat (get_depth (node_edges st ! a)))) - edge_bias opts)"
    if "a < length (node_edges st)" "0 < a" for a
  proof -
    from tinv that have "child_ok enc relmat opts (node_edges st) a"
      by (simp add: tree_inv_def)
    then show ?thesis
      unfolding child_ok_def edge_metric_ok_def by blast
  qed
  with tinv show ?thesis by (simp add: tree_inv_def)
qed

theorem path_metric_accumulates_witness:
  "get_path_metric (node_edges ex_final ! 0) = 0
   \<and> get_incoming_node_edge (node_edges ex_final ! 3) = Some 2
   \<and> get_path_metric (node_edges ex_final ! 3)
       = get_path_metric (node_edges ex_final ! 2) + get_edge_metric (node_edges ex_final ! 3)
   \<and> (\<exists>regs. get_edge_metric (node_edges ex_final ! 3)
         = log2 (relmat_at ex_relmat (fst (encode ex_encoding regs 0 False)) 1)
             - edge_bias ex_options)"
proof -
  note inst = path_metric_accumulates[OF ex_run_final]
  have vals: "length (node_edges ex_final) = 5"
    "get_incoming_node_edge (node_edges ex_final ! 3) = Some 2"
    "get_in_symbol (node_edges ex_final ! 3) = 0"
    "get_depth (node_edges ex_final ! 3) = 1"
    by (simp_all add: ex_final_def ex_node_def)
  from inst have "(\<exists>p<3. get_incoming_node_edge (node_edges ex_final ! 3) = Some p
             \<and> get_path_metric (node_edges ex_final ! 3)
                 = get_path_metric (node_edges ex_final ! p) + get_edge_metric (node_edges ex_final ! 3))
          \<and> (\<exists>regs. get_edge_metric (node_edges ex_final ! 3)
                = log2 (relmat_at ex_relmat
                     (fst (encode ex_encoding regs (get_in_symbol (node_edges ex_final ! 3))
                        (get_in_symbol (node_edges ex_final ! 3) > 0)))
                     (nat (get_depth (node_edges ex_final ! 3)))) - edge_bias ex_options)"
    by (simp add: vals(1))
  with inst show ?thesis
    by (auto simp: vals)
qed

text \<open>C10. After the root is created and counted, before its expansion, the node count is 1
  and the root (with id 0) is the only node+edge. At every state of a run the node count is
  the number of allocated node+edges, the root included, and creation ids are addresses, so
  the first child has id 1 and the root as its parent.\<close>

theorem root_is_counted:
  "node_count (decode_start enc st0) = 1
   \<and> length (node_edges (decode_start enc st0)) = 1
   \<and> get_id (node_edges (decode_start enc st0) ! 0) = 0
   \<and> node_edge_stack (decode_start enc st0) = []
   \<and> (run enc relmat opts st0 st X \<longrightarrow>
        node_count st = length (node_edges st)
        \<and> (\<forall>a<length (node_edges st). get_id (node_edges st ! a) = a)
        \<and> (1 < length (node_edges st) \<longrightarrow>
             get_id (node_edges st ! 1) = 1
             \<and> get_incoming_node_edge (node_edges st ! 1) = Some 0))"
proof -
  have "node_count st = length (node_edges st)
        \<and> (\<forall>a<length (node_edges st). get_id (node_edges st ! a) = a)
        \<and> (1 < length (node_edges st) \<longrightarrow>
             get_id (node_edges st ! 1) = 1
             \<and> get_incoming_node_edge (node_edges st ! 1) = Some 0)"
    if "run enc relmat opts st0 st X"
  proof -
    from run_inv[OF that] have tinv: "tree_inv enc relmat opts st" by simp
    have "get_incoming_node_edge (node_edges st ! 1) = Some 0" if "1 < length (node_edges st)"
    proof -
      from tinv that have "child_ok enc relmat opts (node_edges st) 1"
        by (simp add: tree_inv_def)
      then show ?thesis by (auto simp: child_ok_def)
    qed
    with tinv show ?thesis by (simp add: tree_inv_def)
  qed
  then show ?thesis by (simp add: decode_start_fields)
qed

theorem root_is_counted_witness:
  "node_count (decode_start ex_encoding ex_decoder) = 1
   \<and> node_count ex_root_visited = 3 \<and> length (node_edges ex_root_visited) = 3
   \<and> get_id (node_edges ex_root_visited ! 1) = 1
   \<and> get_incoming_node_edge (node_edges ex_root_visited ! 1) = Some 0"
proof -
  have len: "length (node_edges ex_root_visited) = 3"
    by (simp add: ex_root_visited_def)
  from root_is_counted[of ex_encoding ex_decoder ex_relmat ex_options ex_root_visited "{0}"]
    ex_run_root len
  show ?thesis by simp
qed

end
